theory Spec2Isabelle
  imports Main "HOL-Library.Word"
begin

unbundle bit_operations_syntax

section \<open>JavaScript strings and numbers\<close>

text \<open>
  A JavaScript string is a sequence of 16-bit code units. \<open>js\<close> writes an ASCII
  literal of the source as such a sequence.
\<close>

type_synonym jsstring = "16 word list"

definition js :: "string \<Rightarrow> jsstring" where
  "js s = map of_char s"

text \<open>
  \<^verbatim>\<open>str.charCodeAt(i)\<close>: the code unit at index \<open>i\<close> as a number, \<^verbatim>\<open>NaN\<close> (here
  \<open>None\<close>) when \<open>i\<close> is out of range.
\<close>

definition charCodeAt :: "jsstring \<Rightarrow> nat \<Rightarrow> int option" where
  "charCodeAt str i = (if i < length str then Some (uint (str ! i)) else None)"

text \<open>\<^verbatim>\<open>String.fromCharCode(n)\<close> keeps the low 16 bits of \<open>n\<close>.\<close>

definition fromCharCode :: "int \<Rightarrow> jsstring" where
  "fromCharCode n = [word_of_int n]"

text \<open>
  ECMAScript's \<open>ToInt32\<close> on an integral number, and on a number that may be
  \<^verbatim>\<open>NaN\<close> (which it maps to 0). The bitwise operators apply it to both operands.
\<close>

definition ToInt32 :: "int \<Rightarrow> int" where
  "ToInt32 x = (let m = x mod 2 ^ 32 in if m \<ge> 2 ^ 31 then m - 2 ^ 32 else m)"

definition ToInt32_NaN :: "int option \<Rightarrow> int" where
  "ToInt32_NaN x = (case x of None \<Rightarrow> 0 | Some n \<Rightarrow> ToInt32 n)"

text \<open>\<^verbatim>\<open>a << k\<close>, \<^verbatim>\<open>a & b\<close> and \<^verbatim>\<open>a ^ b\<close> on numbers.\<close>

definition js_shl :: "int \<Rightarrow> nat \<Rightarrow> int" where
  "js_shl a k = ToInt32 (ToInt32 a * 2 ^ (k mod 32))"

definition js_and :: "int \<Rightarrow> int \<Rightarrow> int" where
  "js_and a b = ToInt32 a AND ToInt32 b"

definition js_xor :: "int option \<Rightarrow> int option \<Rightarrow> int" where
  "js_xor a b = ToInt32_NaN a XOR ToInt32_NaN b"

text \<open>
  \<^verbatim>\<open>n.toString(radix)\<close> for an integer \<open>n\<close> in radix 10 or 16: the digits, most
  significant first, lower-case, after a minus sign when \<open>n\<close> is negative. This is
  what JavaScript prints for the integers that \<^verbatim>\<open>Number.isSafeInteger\<close> accepts, of
  magnitude at most \<open>2\<^sup>5\<^sup>3 - 1\<close>. Larger integers are outside the model: not all of them
  are numbers, and from \<open>10\<^sup>2\<^sup>1\<close> JavaScript prints an exponent. The numbers the
  engine prints by itself are window indices, millisecond timestamps, loop counters and
  32-bit hashes.
\<close>

definition isSafeInteger :: "int \<Rightarrow> bool" where
  "isSafeInteger n = (\<bar>n\<bar> \<le> 2 ^ 53 - 1)"

definition digitChar :: "nat \<Rightarrow> 16 word" where
  "digitChar d = (if d < 10 then of_nat (48 + d) else of_nat (87 + d))"

fun digitsOf :: "nat \<Rightarrow> nat \<Rightarrow> jsstring" where
  "digitsOf radix n =
     (if radix < 2 \<or> n < radix then [digitChar n]
      else digitsOf radix (n div radix) @ [digitChar (n mod radix)])"

declare digitsOf.simps [simp del]

definition toString :: "nat \<Rightarrow> int \<Rightarrow> jsstring" where
  "toString radix n =
     (if n < 0 then js ''-'' @ digitsOf radix (nat (- n)) else digitsOf radix (nat n))"

text \<open>\<^verbatim>\<open>s.padStart(n, '0')\<close> and \<^verbatim>\<open>s.substring(0, n)\<close>.\<close>

definition padStart0 :: "nat \<Rightarrow> jsstring \<Rightarrow> jsstring" where
  "padStart0 n s = replicate (n - length s) (of_char CHR ''0'') @ s"

definition substring0 :: "jsstring \<Rightarrow> nat \<Rightarrow> jsstring" where
  "substring0 s n = take n s"

section \<open>The hash: \<^verbatim>\<open>simpleHash\<close>\<close>

text \<open>
  \<^verbatim>\<open>
  simpleHash(str) {
      let hash = 0;
      if (str.length === 0) return hash.toString(16).padStart(8, '0');
      for (let i = 0; i < str.length; i++) {
          const char = str.charCodeAt(i);
          hash = ((hash << 5) - hash) + char;
          hash = hash & hash; // Convert to 32-bit integer
      }
      return Math.abs(hash).toString(16).padStart(8, '0');
  }
  \<close>
  The subtraction and the addition are on numbers (no wrap-around: the operands are
  below \<open>2\<^sup>3\<^sup>7\<close>); only \<^verbatim>\<open><<\<close> and \<^verbatim>\<open>&\<close> truncate to 32 bits.
\<close>

function simpleHash_loop :: "jsstring \<Rightarrow> nat \<Rightarrow> int \<Rightarrow> int" where
  "simpleHash_loop str i hash =
     (if i < length str then
        (case charCodeAt str i of
           None \<Rightarrow> simpleHash_loop str (i + 1) 0
         | Some char \<Rightarrow>
             let hash1 = (js_shl hash 5 - hash) + char;
                 hash2 = js_and hash1 hash1
             in simpleHash_loop str (i + 1) hash2)
      else hash)"
  by pat_completeness auto
termination
  by (relation "measure (\<lambda>(str, i, hash). length str - i)") auto

declare simpleHash_loop.simps [simp del]

definition simpleHash :: "jsstring \<Rightarrow> jsstring" where
  "simpleHash str =
     (if length str = 0 then padStart0 8 (toString 16 0)
      else padStart0 8 (toString 16 \<bar>simpleHash_loop str 0 0\<bar>))"

subsection \<open>The hash as the specification words it\<close>

text \<open>
  The rolling hash on 32-bit words, where \<open>+\<close> and \<open>-\<close> wrap around and \<open>sint\<close>
  reads the result as a signed number; and the rendering of a number below \<open>16\<^sup>k\<close> as
  exactly \<open>k\<close> lower-case hexadecimal digits.
\<close>

definition hashStep :: "32 word \<Rightarrow> 16 word \<Rightarrow> 32 word" where
  "hashStep h c = push_bit 5 h - h + ucast c"

definition hash32 :: "jsstring \<Rightarrow> 32 word" where
  "hash32 str = foldl hashStep 0 str"

definition hexFixed :: "nat \<Rightarrow> nat \<Rightarrow> jsstring" where
  "hexFixed k n = map (\<lambda>j. digitChar ((n div 16 ^ j) mod 16)) (rev [0..<k])"

lemma ToInt32_sint: "ToInt32 x = sint (word_of_int x :: 32 word)"
proof -
  define m where "m = x mod 4294967296"
  have m: "0 \<le> m" "m < 4294967296" by (simp_all add: m_def)
  have s: "sint (word_of_int x :: 32 word) = (m + 2147483648) mod 4294967296 - 2147483648"
    by (simp add: int_word_sint m_def mod_add_left_eq)
  show ?thesis
  proof (cases "m \<ge> 2147483648")
    case True
    have "(m + 2147483648) mod 4294967296 = (m + 2147483648 - 4294967296) mod 4294967296"
      by (simp only: minus_mod_self2)
    also have "\<dots> = m + 2147483648 - 4294967296"
      using True m by (intro mod_pos_pos_trivial) linarith+
    finally show ?thesis using True by (simp add: ToInt32_def s m_def [symmetric])
  next
    case False
    have "(m + 2147483648) mod 4294967296 = m + 2147483648"
      using False m by (intro mod_pos_pos_trivial) linarith+
    then show ?thesis using False by (simp add: ToInt32_def s m_def [symmetric])
  qed
qed

lemma js_and_same: "js_and x x = ToInt32 x"
  by (simp add: js_and_def)

lemma js_shl_sint: "js_shl (sint (w :: 32 word)) 5 = sint (push_bit 5 w)"
  by (simp add: js_shl_def ToInt32_sint push_bit_eq_mult)

lemma word_of_hash_step:
  "(word_of_int (sint (push_bit 5 w) - sint w + uint c) :: 32 word) = hashStep w c"
proof -
  have "(word_of_int (sint (push_bit 5 w) - sint w + uint c) :: 32 word)
      = word_of_int (sint (push_bit 5 w)) - word_of_int (sint w) + word_of_int (uint c)"
    by (simp only: of_int_add of_int_diff)
  also have "\<dots> = push_bit 5 w - w + ucast c"
    by (simp only: ucast_eq [symmetric] of_int_sint scast_id)
  finally show ?thesis by (simp only: hashStep_def)
qed

lemma hash_step_sint:
  "js_and ((js_shl (sint w) 5 - sint w) + uint c) ((js_shl (sint w) 5 - sint w) + uint c)
     = sint (hashStep w c)"
  by (simp only: js_and_same js_shl_sint ToInt32_sint word_of_hash_step)

lemma simpleHash_loop_fold:
  "i \<le> length str \<Longrightarrow>
   simpleHash_loop str i (sint w) = sint (foldl hashStep w (drop i str))"
proof (induction "length str - i" arbitrary: i w)
  case 0
  then show ?case by (simp add: simpleHash_loop.simps)
next
  case (Suc n)
  then have lt: "i < length str" by simp
  have d: "drop i str = str ! i # drop (Suc i) str"
    using lt by (simp add: Cons_nth_drop_Suc)
  have "simpleHash_loop str i (sint w)
      = simpleHash_loop str (i + 1) (sint (hashStep w (str ! i)))"
    using lt by (subst simpleHash_loop.simps) (simp add: charCodeAt_def hash_step_sint Let_def)
  also have "\<dots> = sint (foldl hashStep (hashStep w (str ! i)) (drop (i + 1) str))"
    using Suc.hyps(1) [of "i + 1"] Suc.hyps(2) lt by simp
  finally show ?case by (simp add: d)
qed

lemma simpleHash_loop_hash32: "simpleHash_loop str 0 0 = sint (hash32 str)"
  using simpleHash_loop_fold [of 0 str 0] by (simp add: hash32_def)

lemma digitChar_0: "digitChar 0 = of_char CHR ''0''"
  by (simp add: digitChar_def)

lemma length_digitsOf_16: "n < 16 ^ Suc k \<Longrightarrow> length (digitsOf 16 n) \<le> Suc k"
proof (induction k arbitrary: n)
  case 0
  then show ?case by (subst digitsOf.simps) simp
next
  case (Suc k)
  have "n div 16 < 16 ^ Suc k" using Suc.prems by (simp add: less_mult_imp_div_less)
  then have "length (digitsOf 16 (n div 16)) \<le> Suc k" by (rule Suc.IH)
  then show ?case by (subst digitsOf.simps) simp
qed

lemma hexFixed_Suc: "hexFixed (Suc k) n = hexFixed k (n div 16) @ [digitChar (n mod 16)]"
proof -
  have "[0..<Suc k] = 0 # map Suc [0..<k]"
    by (simp add: upt_conv_Cons map_Suc_upt del: upt_Suc)
  then show ?thesis
    by (simp add: hexFixed_def rev_map [symmetric] div_mult2_eq del: upt_Suc)
qed

lemma padStart0_digitsOf:
  "n < 16 ^ Suc k \<Longrightarrow> padStart0 (Suc k) (digitsOf 16 n) = hexFixed (Suc k) n"
proof (induction k arbitrary: n)
  case 0
  then show ?case
    by (subst digitsOf.simps) (simp add: padStart0_def hexFixed_def)
next
  case (Suc k)
  have lt: "n div 16 < 16 ^ Suc k" using Suc.prems by (simp add: less_mult_imp_div_less)
  have IH: "padStart0 (Suc k) (digitsOf 16 (n div 16)) = hexFixed (Suc k) (n div 16)"
    using lt by (rule Suc.IH)
  have len: "length (digitsOf 16 (n div 16)) \<le> Suc k"
    using lt by (rule length_digitsOf_16)
  show ?case
  proof (cases "n < 16")
    case True
    then have z: "n div 16 = 0" by simp
    have "digitsOf 16 0 = [of_char CHR ''0'']"
      by (subst digitsOf.simps) (simp add: digitChar_0)
    with IH z have "hexFixed (Suc k) (n div 16) = replicate (Suc k) (of_char CHR ''0'')"
      by (simp add: padStart0_def replicate_append_same)
    moreover have "digitsOf 16 n = [digitChar n]"
      using True by (subst digitsOf.simps) simp
    ultimately show ?thesis
      using True by (simp add: hexFixed_Suc [of "Suc k"] padStart0_def)
  next
    case False
    then have "digitsOf 16 n = digitsOf 16 (n div 16) @ [digitChar (n mod 16)]"
      by (subst digitsOf.simps) simp
    then show ?thesis
      using len IH by (simp add: hexFixed_Suc [of "Suc k"] padStart0_def Suc_diff_le)
  qed
qed

lemma set_hexFixed: "set (hexFixed k n) \<subseteq> set (js ''0123456789abcdef'')"
proof -
  have "digitChar d \<in> set (js ''0123456789abcdef'')" if "d < 16" for d
  proof -
    from that have "d = 0 \<or> d = 1 \<or> d = 2 \<or> d = 3 \<or> d = 4 \<or> d = 5 \<or> d = 6 \<or> d = 7
        \<or> d = 8 \<or> d = 9 \<or> d = 10 \<or> d = 11 \<or> d = 12 \<or> d = 13 \<or> d = 14 \<or> d = 15"
      by arith
    then show ?thesis by (auto simp: digitChar_def js_def)
  qed
  then show ?thesis by (auto simp: hexFixed_def)
qed

lemma length_hexFixed: "length (hexFixed k n) = k"
  by (simp add: hexFixed_def)

lemma simpleHash_hexFixed: "simpleHash str = hexFixed 8 (nat \<bar>sint (hash32 str)\<bar>)"
proof -
  have "- (2 ^ 31) \<le> sint (hash32 str)" "sint (hash32 str) < 2 ^ 31"
    using sint_ge [of "hash32 str"] sint_lt [of "hash32 str"] by simp_all
  then have b: "nat \<bar>sint (hash32 str)\<bar> < 16 ^ Suc 7" by simp
  have e: "hash32 [] = 0" by (simp add: hash32_def)
  show ?thesis
    using padStart0_digitsOf [OF b] padStart0_digitsOf [of 0 7]
    by (auto simp: simpleHash_def toString_def simpleHash_loop_hash32 e)
qed

lemma length_simpleHash: "length (simpleHash str) = 8"
  by (simp add: simpleHash_hexFixed length_hexFixed)

text \<open>
  C6. \<^verbatim>\<open>simpleHash\<close> is a function of its input string alone. On the empty string it
  returns \<open>00000000\<close>; on every other string it is the fold of
  \<open>h = (h << 5) - h + charCode\<close> over the code units with 32-bit signed wrap-around,
  whose absolute value is rendered as exactly eight lower-case hexadecimal digits,
  zero-padded on the left.
\<close>

theorem simpleHash_rolling_hash:
  "simpleHash [] = js ''00000000''
   \<and> simpleHash str =
       (if str = [] then js ''00000000'' else hexFixed 8 (nat \<bar>sint (hash32 str)\<bar>))
   \<and> length (simpleHash str) = 8
   \<and> set (simpleHash str) \<subseteq> set (js ''0123456789abcdef'')"
proof -
  have e: "simpleHash [] = js ''00000000''"
    by code_simp
  show ?thesis
    using e set_hexFixed [of 8 "nat \<bar>sint (hash32 str)\<bar>"]
    by (auto simp: simpleHash_hexFixed length_hexFixed)
qed

section \<open>The key stream: \<^verbatim>\<open>expandKey\<close>\<close>

text \<open>
  \<^verbatim>\<open>
  expandKey(key, length) {
      let expandedKey = key;
      let counter = 0;
      while (expandedKey.length < length) {
          const entropy = this.simpleHash(key + counter.toString());
          expandedKey += entropy;
          counter++;
      }
      return expandedKey.substring(0, length);
  }
  \<close>
  The loop ends because every hash has eight characters.
\<close>

function expandKey_loop :: "jsstring \<Rightarrow> nat \<Rightarrow> jsstring \<Rightarrow> nat \<Rightarrow> jsstring" where
  "expandKey_loop key len expandedKey counter =
     (if length expandedKey < len then
        let entropy = simpleHash (key @ toString 10 (int counter))
        in expandKey_loop key len (expandedKey @ entropy) (counter + 1)
      else expandedKey)"
  by pat_completeness auto
termination
  by (relation "measure (\<lambda>(key, len, expandedKey, counter). len - length expandedKey)")
    (auto simp: length_simpleHash)

declare expandKey_loop.simps [simp del]

definition expandKey :: "jsstring \<Rightarrow> nat \<Rightarrow> jsstring" where
  "expandKey key len = substring0 (expandKey_loop key len key 0) len"

text \<open>
  The key stream in closed form: the seed followed by the hashes of \<open>seed + c\<close>,
  \<open>seed + (c+1)\<close>, ..., \<open>n\<close> of them.
\<close>

definition keyBlocks :: "jsstring \<Rightarrow> nat \<Rightarrow> nat \<Rightarrow> jsstring" where
  "keyBlocks seed c n = concat (map (\<lambda>k. simpleHash (seed @ toString 10 (int k))) [c..<c + n])"

lemma keyBlocks_0: "keyBlocks seed c 0 = []"
  by (simp add: keyBlocks_def)

lemma keyBlocks_Suc:
  "keyBlocks seed c (Suc n) = simpleHash (seed @ toString 10 (int c)) @ keyBlocks seed (Suc c) n"
  by (simp add: keyBlocks_def upt_conv_Cons del: upt_Suc)

lemma length_keyBlocks: "length (keyBlocks seed c n) = 8 * n"
  by (induction n arbitrary: c) (simp_all add: keyBlocks_0 keyBlocks_Suc length_simpleHash)

lemma blocks_step: "0 < d \<Longrightarrow> (d + 7) div 8 = Suc ((d - 8 + 7) div 8)" for d :: nat
proof (cases "8 \<le> d")
  case True
  then obtain e where "d = e + 8" by (metis le_add_diff_inverse2)
  then show ?thesis by simp
next
  case False
  assume "0 < d"
  with False have "d = 1 \<or> d = 2 \<or> d = 3 \<or> d = 4 \<or> d = 5 \<or> d = 6 \<or> d = 7" by arith
  then show ?thesis by auto
qed

lemma expandKey_loop_blocks:
  "expandKey_loop key len ek c = ek @ keyBlocks key c ((len - length ek + 7) div 8)"
proof (induction key len ek c rule: expandKey_loop.induct)
  case (1 key len ek c)
  show ?case
  proof (cases "length ek < len")
    case True
    let ?h = "simpleHash (key @ toString 10 (int c))"
    have "len - length (ek @ ?h) = len - length ek - 8"
      by (simp add: length_simpleHash)
    then have n: "(len - length ek + 7) div 8 = Suc ((len - length (ek @ ?h) + 7) div 8)"
      using True blocks_step [of "len - length ek"] by simp
    have "expandKey_loop key len ek c = expandKey_loop key len (ek @ ?h) (c + 1)"
      using True by (subst expandKey_loop.simps) (simp add: Let_def)
    also have "\<dots> = (ek @ ?h) @ keyBlocks key (c + 1) ((len - length (ek @ ?h) + 7) div 8)"
      using True by (rule "1.IH") simp
    finally show ?thesis unfolding n keyBlocks_Suc by simp
  next
    case False
    then show ?thesis
      by (subst expandKey_loop.simps) (simp add: keyBlocks_0)
  qed
qed

lemma expandKey_blocks:
  "expandKey seed len = take len (seed @ keyBlocks seed 0 ((len - length seed + 7) div 8))"
  by (simp add: expandKey_def substring0_def expandKey_loop_blocks)

lemma length_expandKey: "length (expandKey seed len) = len"
proof -
  have "len \<le> length (seed @ keyBlocks seed 0 ((len - length seed + 7) div 8))"
    by (simp add: length_keyBlocks)
  then show ?thesis
    unfolding expandKey_blocks by simp
qed

text \<open>
  C7. \<^verbatim>\<open>expandKey(seed, length)\<close> has exactly \<open>length\<close> characters, for every seed
  and every length. It is a function of the seed and the length alone (no clock is
  among its arguments): the seed, followed by \<open>hash(seed + 0)\<close>, \<open>hash(seed + 1)\<close>,
  ... for as many blocks of eight as the loop appends while the result is shorter than
  \<open>length\<close>, cut to \<open>length\<close> characters.
\<close>

theorem expandKey_exact_length:
  "length (expandKey seed len) = len
   \<and> expandKey seed len = take len (seed @ keyBlocks seed 0 ((len - length seed + 7) div 8))"
  using length_expandKey expandKey_blocks by blast

section \<open>The cipher: \<^verbatim>\<open>xorCipher\<close>\<close>

text \<open>
  \<^verbatim>\<open>
  xorCipher(data, key) {
      const expandedKey = this.expandKey(key, data.length);
      let result = '';
      for (let i = 0; i < data.length; i++) {
          const dataChar = data.charCodeAt(i);
          const keyChar = expandedKey.charCodeAt(i % expandedKey.length);
          const xored = dataChar ^ keyChar;
          result += String.fromCharCode(xored);
      }
      return result;
  }
  \<close>
\<close>

text \<open>\<^verbatim>\<open>i % n\<close> on natural numbers: \<^verbatim>\<open>NaN\<close> (\<open>None\<close>) when \<open>n\<close> is 0.\<close>
definition js_rem :: "nat \<Rightarrow> nat \<Rightarrow> nat option" where
  "js_rem i n = (if n = 0 then None else Some (i mod n))"

text \<open>\<^verbatim>\<open>charCodeAt\<close> at a position that may be \<^verbatim>\<open>NaN\<close>, which is read as position 0.\<close>
definition charCodeAt_pos :: "jsstring \<Rightarrow> nat option \<Rightarrow> int option" where
  "charCodeAt_pos str p = charCodeAt str (case p of None \<Rightarrow> 0 | Some i \<Rightarrow> i)"

function xorCipher_loop :: "jsstring \<Rightarrow> jsstring \<Rightarrow> nat \<Rightarrow> jsstring \<Rightarrow> jsstring" where
  "xorCipher_loop data expandedKey i result =
     (if i < length data then
        let dataChar = charCodeAt data i;
            keyChar = charCodeAt_pos expandedKey (js_rem i (length expandedKey));
            xored = js_xor dataChar keyChar
        in xorCipher_loop data expandedKey (i + 1) (result @ fromCharCode xored)
      else result)"
  by pat_completeness auto
termination
  by (relation "measure (\<lambda>(data, expandedKey, i, result). length data - i)") auto

declare xorCipher_loop.simps [simp del]

definition xorCipher :: "jsstring \<Rightarrow> jsstring \<Rightarrow> jsstring" where
  "xorCipher data key =
     (let expandedKey = expandKey key (length data)
      in xorCipher_loop data expandedKey 0 [])"

lemma ToInt32_uint16: "ToInt32 (uint (w :: 16 word)) = uint w"
proof -
  have "0 \<le> uint w" "uint w < 65536"
    using uint_lt2p [of w] by simp_all
  then show ?thesis by (simp add: ToInt32_def)
qed

lemma xor_units:
  "fromCharCode (js_xor (Some (uint (a :: 16 word))) (Some (uint (b :: 16 word)))) = [a XOR b]"
  by (simp add: fromCharCode_def js_xor_def ToInt32_NaN_def ToInt32_uint16 of_int_xor_eq)

lemma xorCipher_loop_map2:
  "length ek = length data \<Longrightarrow> i \<le> length data \<Longrightarrow>
   xorCipher_loop data ek i result = result @ map2 (XOR) (drop i data) (drop i ek)"
proof (induction "length data - i" arbitrary: i result)
  case 0
  then show ?case by (subst xorCipher_loop.simps) simp
next
  case (Suc n)
  then have lt: "i < length data" "i < length ek" by simp_all
  have d: "drop i data = data ! i # drop (Suc i) data" "drop i ek = ek ! i # drop (Suc i) ek"
    using lt by (simp_all add: Cons_nth_drop_Suc)
  have ne: "ek \<noteq> []" using lt by auto
  have "xorCipher_loop data ek i result
      = xorCipher_loop data ek (i + 1) (result @ [data ! i XOR ek ! i])"
    using lt ne
    by (subst xorCipher_loop.simps)
      (simp add: Let_def charCodeAt_def charCodeAt_pos_def js_rem_def xor_units)
  also have "\<dots> = (result @ [data ! i XOR ek ! i])
      @ map2 (XOR) (drop (i + 1) data) (drop (i + 1) ek)"
    using Suc.hyps(2) lt Suc.prems by (intro Suc.hyps(1)) simp_all
  finally show ?case by (simp add: d)
qed

lemma xorCipher_map2: "xorCipher data key = map2 (XOR) data (expandKey key (length data))"
  using xorCipher_loop_map2 [of "expandKey key (length data)" data 0 "[]"]
  by (simp add: xorCipher_def length_expandKey)

lemma length_xorCipher: "length (xorCipher data key) = length data"
  by (simp add: xorCipher_map2 length_expandKey)

lemma map2_xor_twice: "length ks = length xs \<Longrightarrow> map2 (XOR) (map2 (XOR) xs ks) ks = (xs :: 16 word list)"
  by (induction xs ks rule: list_induct2') (simp_all add: xor.assoc)

lemma xorCipher_twice: "xorCipher (xorCipher data key) key = data"
  by (simp add: xorCipher_map2 length_expandKey map2_xor_twice)

text \<open>
  C8. For every data string and every key string,
  \<^verbatim>\<open>xorCipher(xorCipher(data, key), key)\<close> is \<open>data\<close>: the transform is its own inverse.
\<close>

theorem xorCipher_involution: "xorCipher (xorCipher data key) key = data"
  by (rule xorCipher_twice)

section \<open>The engine, the clock and the time key\<close>

text \<open>
  The engine object holds the master key and the window length; the constructor sets
  the window to 300000 ms and nothing changes it afterwards. The device fingerprint is
  an input of the constructor. \<^verbatim>\<open>Date.now()\<close> is an effect: the clock is the sequence
  of all its readings together with the number of reads made so far, and a read returns
  the next reading and counts it. Readings are integral milliseconds; \<^verbatim>\<open>Math.floor(now / this.timeWindow)\<close> is then
  integer division rounding down (the window length is positive).
\<close>

record CryptoEngine =
  masterKey :: jsstring
  timeWindow :: int

record clock =
  readings :: "nat \<Rightarrow> int"
  reads :: nat

definition Date_now :: "clock \<Rightarrow> int \<times> clock" where
  "Date_now c = (readings c (reads c), c\<lparr>reads := reads c + 1\<rparr>)"

definition secret :: jsstring where
  "secret = js ''NFC_AUTH_2025_SECURE''"

definition generateMasterKey :: "jsstring \<Rightarrow> jsstring" where
  "generateMasterKey deviceFingerprint = simpleHash (deviceFingerprint @ secret)"

definition new_CryptoEngine :: "jsstring \<Rightarrow> CryptoEngine" where
  "new_CryptoEngine deviceFingerprint =
     \<lparr>masterKey = generateMasterKey deviceFingerprint, timeWindow = 300000\<rparr>"

definition getTimeSeed :: "CryptoEngine \<Rightarrow> clock \<Rightarrow> int \<times> clock" where
  "getTimeSeed this c =
     (let (now, c1) = Date_now c;
          timeSlot = now div timeWindow this
      in (timeSlot, c1))"

text \<open>
  \<^verbatim>\<open>timeSeed || this.getTimeSeed()\<close>: the clock is read when \<open>timeSeed\<close> is
  \<^verbatim>\<open>null\<close> (\<open>None\<close>) or 0, the falsy numbers an integer argument can be.
\<close>

definition orTimeSeed :: "CryptoEngine \<Rightarrow> int option \<Rightarrow> clock \<Rightarrow> int \<times> clock" where
  "orTimeSeed this timeSeed c =
     (case timeSeed of
        None \<Rightarrow> getTimeSeed this c
      | Some s \<Rightarrow> if s = 0 then getTimeSeed this c else (s, c))"

text \<open>
  \<^verbatim>\<open>
  generateTimeKey(timeSeed = null) {
      const seed = timeSeed || this.getTimeSeed();
      const keyMaterial = this.masterKey + seed.toString();
      return this.simpleHash(keyMaterial);
  }
  \<close>
\<close>

definition generateTimeKey :: "CryptoEngine \<Rightarrow> int option \<Rightarrow> clock \<Rightarrow> jsstring \<times> clock" where
  "generateTimeKey this timeSeed c =
     (let (seed, c1) = orTimeSeed this timeSeed c;
          keyMaterial = masterKey this @ toString 10 seed
      in (simpleHash keyMaterial, c1))"

text \<open>Rules that evaluate hashes and printed numbers on literals.\<close>

lemmas hash_eval = simpleHash_hexFixed hash32_def hashStep_def hexFixed_def digitChar_def upt_rec
lemmas str_eval = js_def toString_def digitsOf.simps

text \<open>
  C9 (as amended). For every safe integer window \<open>w\<close> other than 0,
  \<^verbatim>\<open>generateTimeKey(w)\<close> is \<open>hash(masterKey + w.toString())\<close> and leaves the clock
  unread: it is a function of the master key and the window alone.
\<close>

theorem generateTimeKey_nonzero_window:
  "w \<noteq> 0 \<Longrightarrow> isSafeInteger w \<Longrightarrow>
   generateTimeKey this (Some w) c = (simpleHash (masterKey this @ toString 10 w), c)"
  by (simp add: generateTimeKey_def orTimeSeed_def)

theorem generateTimeKey_nonzero_window_witness:
  "(5 :: int) \<noteq> 0 \<and> isSafeInteger 5 \<and>
   generateTimeKey (new_CryptoEngine (js ''device'')) (Some 5)
       \<lparr>readings = \<lambda>i. 1700000000000, reads = 0\<rparr>
     = (simpleHash (masterKey (new_CryptoEngine (js ''device'')) @ toString 10 5),
        \<lparr>readings = \<lambda>i. 1700000000000, reads = 0\<rparr>)"
  using generateTimeKey_nonzero_window
    [of 5 "new_CryptoEngine (js ''device'')" "\<lparr>readings = \<lambda>i. 1700000000000, reads = 0\<rparr>"]
  by (simp add: isSafeInteger_def)

text \<open>
  C9 as stated fails at window 0, which \<^verbatim>\<open>||\<close> takes for an absent argument: with
  the clock in window 5 the key is that of window 5, not \<open>hash(masterKey + "0")\<close>, and
  the clock has been read.
\<close>

theorem generateTimeKey_zero_window_reads_clock:
  "generateTimeKey (new_CryptoEngine (js ''device'')) (Some 0)
       \<lparr>readings = \<lambda>i. 1500000, reads = 0\<rparr>
     = (simpleHash (masterKey (new_CryptoEngine (js ''device'')) @ toString 10 5),
        \<lparr>readings = \<lambda>i. 1500000, reads = 1\<rparr>)
   \<and> simpleHash (masterKey (new_CryptoEngine (js ''device'')) @ toString 10 5)
     \<noteq> simpleHash (masterKey (new_CryptoEngine (js ''device'')) @ toString 10 0)"
  apply (simp add: generateTimeKey_def orTimeSeed_def getTimeSeed_def Date_now_def
      new_CryptoEngine_def generateMasterKey_def secret_def)
  apply (simp add: hash_eval str_eval)
  done

section \<open>Exceptions and outcomes\<close>

text \<open>
  What a call can do: return a value, throw, or leave the part of JavaScript this theory
  models (\<open>Unmodelled\<close>; only \<^verbatim>\<open>attemptDecrypt\<close> can, on envelopes whose fields are
  not a string message with an integer timestamp, see below). \<open>Error m\<close> is
  \<^verbatim>\<open>new Error(m)\<close>; the other exceptions are the engine's own, whose message text an
  engine chooses, so \<^verbatim>\<open>new Error(prefix + error.message)\<close> is \<open>Error (prefix @ m)\<close> for
  an \<open>Error m\<close> and \<open>ErrorWithMessageOf prefix e\<close> for an engine exception \<open>e\<close>.
\<close>

datatype exn =
    Error string
  | InvalidCharacterError
  | SyntaxError
  | TypeError
  | ErrorWithMessageOf string exn

datatype 'a completion = Return 'a | Throw exn | Unmodelled

definition rethrow :: "string \<Rightarrow> exn \<Rightarrow> exn" where
  "rethrow prefix e = (case e of Error m \<Rightarrow> Error (prefix @ m) | _ \<Rightarrow> ErrorWithMessageOf prefix e)"


section \<open>Base64: \<^verbatim>\<open>btoa\<close> and \<^verbatim>\<open>atob\<close>\<close>

text \<open>
  \<^verbatim>\<open>btoa\<close> throws \<open>InvalidCharacterError\<close> when a code unit is above 255 and
  otherwise encodes the code units as bytes, three at a time, padding with \<open>=\<close>.
  \<^verbatim>\<open>atob\<close> is the forgiving decoder of the HTML standard: ASCII whitespace is removed,
  one or two trailing \<open>=\<close> are dropped when the length is a multiple of four, a length
  of \<open>1 mod 4\<close> or a character outside the alphabet throws, and left-over bits are
  discarded.
\<close>

definition b64char :: "nat \<Rightarrow> 16 word" where
  "b64char i =
     (if i < 26 then of_nat (65 + i)
      else if i < 52 then of_nat (71 + i)
      else if i < 62 then of_nat (i - 4)
      else if i = 62 then 43 else 47)"

fun b64encode :: "nat list \<Rightarrow> jsstring" where
  "b64encode (a # b # c # rest) =
     [b64char (a div 4), b64char ((a mod 4) * 16 + b div 16),
      b64char ((b mod 16) * 4 + c div 64), b64char (c mod 64)] @ b64encode rest"
| "b64encode [a, b] =
     [b64char (a div 4), b64char ((a mod 4) * 16 + b div 16), b64char ((b mod 16) * 4), 61]"
| "b64encode [a] = [b64char (a div 4), b64char ((a mod 4) * 16), 61, 61]"
| "b64encode [] = []"

definition btoa :: "jsstring \<Rightarrow> exn + jsstring" where
  "btoa s =
     (if list_all (\<lambda>u. u \<le> 255) s then Inr (b64encode (map unat s))
      else Inl InvalidCharacterError)"

definition isAsciiWhitespace :: "16 word \<Rightarrow> bool" where
  "isAsciiWhitespace u = (u = 9 \<or> u = 10 \<or> u = 12 \<or> u = 13 \<or> u = 32)"

definition b64value :: "16 word \<Rightarrow> nat option" where
  "b64value u =
     (let n = unat u in
      if 65 \<le> n \<and> n \<le> 90 then Some (n - 65)
      else if 97 \<le> n \<and> n \<le> 122 then Some (n - 71)
      else if 48 \<le> n \<and> n \<le> 57 then Some (n + 4)
      else if n = 43 then Some 62
      else if n = 47 then Some 63
      else None)"

definition stripPadding :: "jsstring \<Rightarrow> jsstring" where
  "stripPadding d =
     (if length d mod 4 = 0 \<and> d \<noteq> [] \<and> last d = 61 then
        (if butlast d \<noteq> [] \<and> last (butlast d) = 61 then butlast (butlast d) else butlast d)
      else d)"

fun b64decode :: "nat list \<Rightarrow> nat list" where
  "b64decode (a # b # c # d # rest) =
     [a * 4 + b div 16, (b mod 16) * 16 + c div 4, (c mod 4) * 64 + d] @ b64decode rest"
| "b64decode [a, b, c] = [a * 4 + b div 16, (b mod 16) * 16 + c div 4]"
| "b64decode [a, b] = [a * 4 + b div 16]"
| "b64decode [a] = []"
| "b64decode [] = []"

definition atob :: "jsstring \<Rightarrow> exn + jsstring" where
  "atob data =
     (let d1 = filter (\<lambda>u. \<not> isAsciiWhitespace u) data;
          d2 = stripPadding d1
      in if length d2 mod 4 = 1 then Inl InvalidCharacterError
         else if \<not> list_all (\<lambda>u. b64value u \<noteq> None) d2 then Inl InvalidCharacterError
         else Inr (map of_nat (b64decode (map (\<lambda>u. the (b64value u)) d2))))"

subsection \<open>Decoding inverts encoding\<close>

lemma pack_div: "r < n \<Longrightarrow> (q * n + r) div n = (q::nat)"
  by simp
lemma pack_mod: "r < n \<Longrightarrow> (q * n + r) mod n = (r::nat)"
  by simp
lemma b64_bytes:
  assumes "b < 256" "c < 256"
  shows "a div 4 * 4 + ((a mod 4) * 16 + b div 16) div 16 = (a::nat)"
    and "((a mod 4) * 16 + b div 16) mod 16 * 16 + ((b mod 16) * 4 + c div 64) div 4 = (b::nat)"
    and "((b mod 16) * 4 + c div 64) mod 4 * 64 + c mod 64 = (c::nat)"
proof -
  have bh: "b div 16 < 16" using assms(1) by (simp add: less_mult_imp_div_less)
  have ch: "c div 64 < 4" using assms(2) by (simp add: less_mult_imp_div_less)
  show "a div 4 * 4 + ((a mod 4) * 16 + b div 16) div 16 = a"
    by (simp only: pack_div [OF bh] div_mult_mod_eq)
  show "((a mod 4) * 16 + b div 16) mod 16 * 16 + ((b mod 16) * 4 + c div 64) div 4 = b"
    by (simp only: pack_mod [OF bh] pack_div [OF ch] div_mult_mod_eq)
  show "((b mod 16) * 4 + c div 64) mod 4 * 64 + c mod 64 = c"
    by (simp only: pack_mod [OF ch] div_mult_mod_eq)
qed
lemma b64_sextets:
  assumes "a < 256" "b < 256" "c < 256"
  shows "a div 4 < (64::nat)" "(a mod 4) * 16 + b div 16 < 64" "(b mod 16) * 4 + c div 64 < 64"
    "c mod 64 < 64"
proof -
  have "b div 16 < 16" using assms(2) by (simp add: less_mult_imp_div_less)
  moreover have "c div 64 < 4" using assms(3) by (simp add: less_mult_imp_div_less)
  moreover have "a mod 4 < 4" "b mod 16 < 16" by simp_all
  ultimately show "(a mod 4) * 16 + b div 16 < 64" "(b mod 16) * 4 + c div 64 < 64"
    by linarith+
  show "a div 4 < 64" using assms(1) by (simp add: less_mult_imp_div_less)
  show "c mod 64 < 64" by simp
qed


fun b64core :: "nat list \<Rightarrow> nat list" where
  "b64core (a # b # c # rest) =
     [a div 4, (a mod 4) * 16 + b div 16, (b mod 16) * 4 + c div 64, c mod 64] @ b64core rest"
| "b64core [a, b] = [a div 4, (a mod 4) * 16 + b div 16, (b mod 16) * 4]"
| "b64core [a] = [a div 4, (a mod 4) * 16]"
| "b64core [] = []"

definition b64pad :: "nat list \<Rightarrow> nat" where
  "b64pad bs = (3 - length bs mod 3) mod 3"

lemma b64pad_simps:
  "b64pad [] = 0" "b64pad [a] = 2" "b64pad [a, b] = 1" "b64pad (a # b # c # rest) = b64pad rest"
  by (simp_all add: b64pad_def)

lemma b64encode_core:
  "b64encode bs = map b64char (b64core bs) @ replicate (b64pad bs) 61"
  by (induction bs rule: b64core.induct) (simp_all add: b64pad_simps numeral_2_eq_2)

lemma b64core_lt: "list_all (\<lambda>b. b < 256) bs \<Longrightarrow> list_all (\<lambda>i. i < 64) (b64core bs)"
proof (induction bs rule: b64core.induct)
  case (1 a b c rest)
  then have "a < 256" "b < 256" "c < 256" by simp_all
  from b64_sextets [OF this] 1 show ?case by simp
next
  case (2 a b)
  then have "a < 256" "b < 256" "(0::nat) < 256" by simp_all
  from b64_sextets [OF this] show ?case by simp
next
  case (3 a)
  then have "a < 256" "(0::nat) < 256" "(0::nat) < 256" by simp_all
  from b64_sextets [OF this] show ?case by simp
qed simp

lemma b64decode_core: "list_all (\<lambda>b. b < 256) bs \<Longrightarrow> b64decode (b64core bs) = bs"
proof (induction bs rule: b64core.induct)
  case (1 a b c rest)
  then have "b < 256" "c < 256" by simp_all
  from b64_bytes [OF this] 1 show ?case by simp
next
  case (2 a b)
  then have "b < 256" "(0::nat) < 256" by simp_all
  from b64_bytes(1,2) [OF this, of a] show ?case by simp
next
  case (3 a)
  have "(0::nat) < 256" "(0::nat) < 256" by simp_all
  from b64_bytes(1) [OF this, of a] show ?case by simp
qed simp

lemma b64value_b64char: "i < 64 \<Longrightarrow> b64value (b64char i) = Some i"
proof -
  assume i: "i < 64"
  have u: "unat (of_nat n :: 16 word) = n" if "n < 256" for n
    using that by (simp add: unat_of_nat)
  consider "i < 26" | "26 \<le> i" "i < 52" | "52 \<le> i" "i < 62" | "i = 62" | "i = 63"
    using i by arith
  then show ?thesis
  proof cases
    case 1 then show ?thesis by (simp add: b64char_def b64value_def u del: of_nat_add of_nat_diff)
  next
    case 2 then show ?thesis by (simp add: b64char_def b64value_def u del: of_nat_add of_nat_diff)
  next
    case 3 then show ?thesis by (auto simp add: b64char_def b64value_def u Let_def simp del: of_nat_add of_nat_diff)
  next
    case 4 then show ?thesis by (simp add: b64char_def b64value_def)
  next
    case 5 then show ?thesis by (simp add: b64char_def b64value_def)
  qed
qed

lemma b64char_plain: "i < 64 \<Longrightarrow> \<not> isAsciiWhitespace (b64char i) \<and> b64char i \<noteq> 61"
proof -
  assume i: "i < 64"
  then have "b64value (b64char i) = Some i" by (rule b64value_b64char)
  moreover have "b64value 9 = None" "b64value 10 = None" "b64value 12 = None"
    "b64value 13 = None" "b64value 32 = None" "b64value 61 = None"
    by (simp_all add: b64value_def)
  ultimately show ?thesis by (auto simp: isAsciiWhitespace_def)
qed

lemma b64pad_le: "b64pad bs \<le> 2"
  by (simp add: b64pad_def)

lemma b64core_Nil_iff: "b64core bs = [] \<longleftrightarrow> bs = []"
  by (induction bs rule: b64core.induct) simp_all

lemma b64pad_Nil: "bs = [] \<Longrightarrow> b64pad bs = 0"
  by (simp add: b64pad_def)

lemma length_b64core_mod: "length (b64core bs) mod 4 \<noteq> 1"
  by (induction bs rule: b64core.induct) simp_all

lemma length_b64encode_mod: "length (b64encode bs) mod 4 = 0"
  by (induction bs rule: b64encode.induct) simp_all

lemma stripPadding_pad:
  assumes "length (xs @ replicate p 61) mod 4 = 0" "p \<le> 2" "xs = [] \<longrightarrow> p = 0"
    "xs \<noteq> [] \<longrightarrow> last xs \<noteq> 61"
  shows "stripPadding (xs @ replicate p 61) = xs"
proof -
  consider "p = 0" | "p = 1" | "p = 2" using assms(2) by arith
  then show ?thesis
  proof cases
    case 1
    with assms show ?thesis by (auto simp: stripPadding_def)
  next
    case 2
    with assms show ?thesis by (auto simp: stripPadding_def)
  next
    case 3
    then have r: "replicate p (61 :: 16 word) = [61, 61]" by (simp add: numeral_2_eq_2)
    from assms 3 have "xs \<noteq> []" by auto
    with assms(1,4) show ?thesis
      unfolding r stripPadding_def
      by (simp add: butlast_append)
  qed
qed

lemma b64char_list:
  assumes "list_all (\<lambda>i. i < 64) xs"
  shows "map (\<lambda>u. the (b64value u)) (map b64char xs) = xs"
    and "list_all (\<lambda>u. b64value u \<noteq> None) (map b64char xs)"
    and "list_all (\<lambda>u. \<not> isAsciiWhitespace u \<and> u \<noteq> 61) (map b64char xs)"
  using assms by (induction xs) (simp_all add: b64value_b64char b64char_plain)

lemma atob_b64encode:
  assumes "list_all (\<lambda>b. b < 256) bs"
  shows "atob (b64encode bs) = Inr (map of_nat bs)"
proof -
  let ?core = "map b64char (b64core bs)"
  have lt: "list_all (\<lambda>i. i < 64) (b64core bs)" using assms by (rule b64core_lt)
  have plain: "list_all (\<lambda>u. \<not> isAsciiWhitespace u \<and> u \<noteq> 61) ?core"
    using lt by (rule b64char_list)
  have enc: "b64encode bs = ?core @ replicate (b64pad bs) 61" by (rule b64encode_core)
  have "\<not> isAsciiWhitespace 61" by (simp add: isAsciiWhitespace_def)
  then have f: "filter (\<lambda>u. \<not> isAsciiWhitespace u) (b64encode bs) = b64encode bs"
    using plain unfolding enc by (auto simp: list_all_iff)
  have last: "?core \<noteq> [] \<longrightarrow> last ?core \<noteq> 61"
  proof
    assume "?core \<noteq> []"
    then have "last ?core \<in> set ?core" by (rule last_in_set)
    with plain show "last ?core \<noteq> 61" unfolding list_all_iff by blast
  qed
  have s: "stripPadding (b64encode bs) = ?core"
    unfolding enc
  proof (rule stripPadding_pad)
    show "length (?core @ replicate (b64pad bs) 61) mod 4 = 0"
      using length_b64encode_mod [of bs] unfolding enc .
    show "b64pad bs \<le> 2" by (rule b64pad_le)
    show "?core = [] \<longrightarrow> b64pad bs = 0" by (simp add: b64core_Nil_iff b64pad_Nil)
    show "?core \<noteq> [] \<longrightarrow> last ?core \<noteq> 61" by (rule last)
  qed
  have v: "map (\<lambda>u. the (b64value u)) ?core = b64core bs"
    using lt by (rule b64char_list)
  have ok: "list_all (\<lambda>u. b64value u \<noteq> None) ?core"
    using lt by (rule b64char_list)
  have m: "length ?core mod 4 \<noteq> 1" using length_b64core_mod [of bs] by simp
  show ?thesis
    using m ok by (simp add: atob_def Let_def f s v b64decode_core [OF assms] del: length_map map_map)
qed

lemma atob_btoa: "btoa s = Inr b \<Longrightarrow> atob b = Inr s"
proof -
  assume a: "btoa s = Inr b"
  then have le: "list_all (\<lambda>u. u \<le> 255) s" and b: "b = b64encode (map unat s)"
    by (auto simp: btoa_def split: if_splits)
  have "list_all (\<lambda>b. b < 256) (map unat s)"
    using le by (induction s) (simp_all add: word_le_nat_alt)
  then have "atob b = Inr (map of_nat (map unat s))"
    unfolding b by (rule atob_b64encode)
  then show ?thesis by (simp add: comp_def)
qed


section \<open>JSON\<close>

text \<open>
  A parsed JSON value. A number that is an integer of magnitude at most \<open>2\<^sup>5\<^sup>3\<close> is
  \<open>JNum\<close> of that integer (a JavaScript number holds it exactly); \<open>JNumOther\<close> stands
  for every other number. An object keeps its members in the order of the text; a
  property read takes the last member of that name.
\<close>

datatype json =
    JNull
  | JBool bool
  | JNum int
  | JNumOther
  | JStr jsstring
  | JArr "json list"
  | JObj "(jsstring \<times> json) list"

subsection \<open>\<^verbatim>\<open>JSON.stringify\<close> of the envelope\<close>

text \<open>
  \<open>QuoteJSONString\<close> of ECMAScript: the seven short escapes, \<open>\u\<close> escapes for the
  other control characters and for surrogates that are not half of a pair, every other
  code unit as it is. The envelope is the object literal of \<^verbatim>\<open>encrypt\<close>, whose four
  properties are written in their order, without white space.
\<close>

definition isLeadingSurrogate :: "16 word \<Rightarrow> bool" where
  "isLeadingSurrogate u = (0xD800 \<le> u \<and> u \<le> 0xDBFF)"

definition isTrailingSurrogate :: "16 word \<Rightarrow> bool" where
  "isTrailingSurrogate u = (0xDC00 \<le> u \<and> u \<le> 0xDFFF)"

definition UnicodeEscape :: "16 word \<Rightarrow> jsstring" where
  "UnicodeEscape u = [0x5C, 0x75] @ hexFixed 4 (unat u)"

definition escapeUnit :: "16 word \<Rightarrow> jsstring" where
  "escapeUnit u =
     (if u = 0x08 then [0x5C, 0x62]
      else if u = 0x09 then [0x5C, 0x74]
      else if u = 0x0A then [0x5C, 0x6E]
      else if u = 0x0C then [0x5C, 0x66]
      else if u = 0x0D then [0x5C, 0x72]
      else if u = 0x22 then [0x5C, 0x22]
      else if u = 0x5C then [0x5C, 0x5C]
      else if u < 0x20 \<or> isLeadingSurrogate u \<or> isTrailingSurrogate u then UnicodeEscape u
      else [u])"

fun quoteUnits :: "jsstring \<Rightarrow> jsstring" where
  "quoteUnits (a # b # rest) =
     (if isLeadingSurrogate a \<and> isTrailingSurrogate b then a # b # quoteUnits rest
      else escapeUnit a @ quoteUnits (b # rest))"
| "quoteUnits [a] = escapeUnit a"
| "quoteUnits [] = []"

definition QuoteJSONString :: "jsstring \<Rightarrow> jsstring" where
  "QuoteJSONString s = [0x22] @ quoteUnits s @ [0x22]"

definition JSON_stringify_envelope :: "jsstring \<Rightarrow> int \<Rightarrow> int \<Rightarrow> jsstring \<Rightarrow> jsstring" where
  "JSON_stringify_envelope msg ts seed checksum =
     js ''{'' @ QuoteJSONString (js ''msg'') @ js '':'' @ QuoteJSONString msg
     @ js '','' @ QuoteJSONString (js ''ts'') @ js '':'' @ toString 10 ts
     @ js '','' @ QuoteJSONString (js ''seed'') @ js '':'' @ toString 10 seed
     @ js '','' @ QuoteJSONString (js ''checksum'') @ js '':'' @ QuoteJSONString checksum
     @ js ''}''"

subsection \<open>\<^verbatim>\<open>JSON.parse\<close>: the lexical grammar\<close>

text \<open>
  The text is cut into tokens: the six structural characters, strings, numbers and
  the three literal names, with the four JSON white-space characters between them.
\<close>

datatype token =
    TLBrace | TRBrace | TLBracket | TRBracket | TColon | TComma
  | TString jsstring | TNumber json | TTrue | TFalse | TNull

definition isJsonWhitespace :: "16 word \<Rightarrow> bool" where
  "isJsonWhitespace u = (u = 0x20 \<or> u = 0x09 \<or> u = 0x0A \<or> u = 0x0D)"

definition isDigit :: "16 word \<Rightarrow> bool" where
  "isDigit u = (0x30 \<le> u \<and> u \<le> 0x39)"

definition hexValue :: "16 word \<Rightarrow> nat option" where
  "hexValue u =
     (if 0x30 \<le> u \<and> u \<le> 0x39 then Some (unat u - 48)
      else if 0x61 \<le> u \<and> u \<le> 0x66 then Some (unat u - 87)
      else if 0x41 \<le> u \<and> u \<le> 0x46 then Some (unat u - 55)
      else None)"

definition hex4 :: "16 word \<Rightarrow> 16 word \<Rightarrow> 16 word \<Rightarrow> 16 word \<Rightarrow> 16 word option" where
  "hex4 h1 h2 h3 h4 =
     (case (hexValue h1, hexValue h2, hexValue h3, hexValue h4) of
        (Some a, Some b, Some c, Some d) \<Rightarrow> Some (of_nat (((a * 16 + b) * 16 + c) * 16 + d))
      | _ \<Rightarrow> None)"

definition simpleEscape :: "16 word \<Rightarrow> 16 word option" where
  "simpleEscape e =
     (if e = 0x22 then Some 0x22
      else if e = 0x5C then Some 0x5C
      else if e = 0x2F then Some 0x2F
      else if e = 0x62 then Some 0x08
      else if e = 0x66 then Some 0x0C
      else if e = 0x6E then Some 0x0A
      else if e = 0x72 then Some 0x0D
      else if e = 0x74 then Some 0x09
      else None)"

definition push :: "16 word \<Rightarrow> (jsstring \<times> jsstring) option \<Rightarrow> (jsstring \<times> jsstring) option" where
  "push u r = (case r of None \<Rightarrow> None | Some (s, rest) \<Rightarrow> Some (u # s, rest))"

fun lexString :: "jsstring \<Rightarrow> (jsstring \<times> jsstring) option" where
  "lexString [] = None"
| "lexString (u # rest) =
     (if u = 0x22 then Some ([], rest)
      else if u = 0x5C then
        (case rest of
           [] \<Rightarrow> None
         | e # rest1 \<Rightarrow>
             if e = 0x75 then
               (case rest1 of
                  h1 # h2 # h3 # h4 # rest2 \<Rightarrow>
                    (case hex4 h1 h2 h3 h4 of
                       None \<Rightarrow> None
                     | Some v \<Rightarrow> push v (lexString rest2))
                | _ \<Rightarrow> None)
             else
               (case simpleEscape e of
                  None \<Rightarrow> None
                | Some v \<Rightarrow> push v (lexString rest1)))
      else if u < 0x20 then None
      else push u (lexString rest))"

text \<open>The value of a run of decimal digits.\<close>
definition digitsValue :: "jsstring \<Rightarrow> nat" where
  "digitsValue ds = foldl (\<lambda>n d. n * 10 + (unat d - 48)) 0 ds"

text \<open>
  The number \<open>\<plusminus> m \<times> 10\<^sup>e\<close> of a literal, when it is an integer of magnitude at most
  \<open>2\<^sup>5\<^sup>3\<close> (which a JavaScript number holds exactly); \<open>JNumOther\<close> stands for every other
  number.
\<close>
definition numberValue :: "bool \<Rightarrow> nat \<Rightarrow> int \<Rightarrow> json" where
  "numberValue neg m e =
     (if m = 0 then JNum 0
      else if 0 \<le> e then
        (let v = m * 10 ^ nat e in
         if v \<le> 2 ^ 53 then JNum (if neg then - int v else int v) else JNumOther)
      else
        (let p = 10 ^ nat (- e) in
         if m mod p = 0 \<and> m div p \<le> 2 ^ 53
         then JNum (if neg then - int (m div p) else int (m div p)) else JNumOther))"

text \<open>The optional exponent part: \<open>[eE] [+-]? digits\<close>.\<close>
definition lexExponent :: "jsstring \<Rightarrow> (int \<times> jsstring) option" where
  "lexExponent s =
     (case s of
        [] \<Rightarrow> Some (0, s)
      | c # t \<Rightarrow>
          if c = 0x65 \<or> c = 0x45 then
            (let (eneg, t1) =
                   (case t of
                      [] \<Rightarrow> (False, t)
                    | g # t' \<Rightarrow> if g = 0x2D then (True, t') else if g = 0x2B then (False, t') else (False, t));
                 es = takeWhile isDigit t1
             in if es = [] then None
                else Some (if eneg then - int (digitsValue es) else int (digitsValue es),
                           dropWhile isDigit t1))
          else Some (0, s))"

text \<open>The optional fraction part: \<open>. digits\<close>.\<close>
definition lexFraction :: "jsstring \<Rightarrow> (jsstring \<times> jsstring) option" where
  "lexFraction s =
     (case s of
        [] \<Rightarrow> Some ([], s)
      | c # t \<Rightarrow>
          if c = 0x2E then
            (let fs = takeWhile isDigit t
             in if fs = [] then None else Some (fs, dropWhile isDigit t))
          else Some ([], s))"

text \<open>
  A number literal: \<open>-? (0 | [1-9] digits) fraction? exponent?\<close>. A zero followed by a
  digit is refused here: no JSON text has a value directly after a number.
\<close>
definition lexNumber :: "jsstring \<Rightarrow> (json \<times> jsstring) option" where
  "lexNumber s =
     (let (neg, s1) = (case s of [] \<Rightarrow> (False, s) | c # t \<Rightarrow> if c = 0x2D then (True, t) else (False, s));
          ds = takeWhile isDigit s1;
          s2 = dropWhile isDigit s1
      in if ds = [] \<or> (length ds > 1 \<and> hd ds = 0x30) then None
         else
           (case lexFraction s2 of
              None \<Rightarrow> None
            | Some (fs, s3) \<Rightarrow>
                (case lexExponent s3 of
                   None \<Rightarrow> None
                 | Some (e, s4) \<Rightarrow>
                     Some (numberValue neg (digitsValue (ds @ fs)) (e - int (length fs)), s4))))"

lemma length_dropWhile_le': "length (dropWhile P xs) \<le> length xs"
  by (induction xs) auto

lemma lexString_length: "lexString s = Some (x, r) \<Longrightarrow> length r < length s"
proof (induction "length s" arbitrary: s x r rule: less_induct)
  case less
  show ?case
  proof (cases s)
    case Nil
    with less.prems show ?thesis by simp
  next
    case (Cons u rest)
    have IH: "length r' < length s'" if "lexString s' = Some (x', r')" "length s' < length s" for s' x' r'
      using less.hyps [OF that(2) that(1)] .
    from less.prems show ?thesis
      unfolding Cons
      by (auto simp: push_def split: if_splits list.splits option.splits dest!: IH [unfolded Cons])
  qed
qed

lemma lexExponent_length: "lexExponent s = Some (e, r) \<Longrightarrow> length r \<le> length s"
  using length_dropWhile_le' [of isDigit]
  by (auto simp: lexExponent_def Let_def le_SucI split: list.splits if_splits)

lemma lexFraction_length: "lexFraction s = Some (f, r) \<Longrightarrow> length r \<le> length s"
  using length_dropWhile_le' [of isDigit]
  by (auto simp: lexFraction_def Let_def le_SucI split: list.splits if_splits)

lemma takeWhile_dropWhile_length: "length (takeWhile P xs) + length (dropWhile P xs) = length xs"
  by (induction xs) auto

lemma lexNumber_length: "lexNumber s = Some (v, r) \<Longrightarrow> length r < length s"
proof -
  assume a: "lexNumber s = Some (v, r)"
  obtain neg s1 where n: "(case s of [] \<Rightarrow> (False, s) | c # t \<Rightarrow> if c = 0x2D then (True, t) else (False, s)) = (neg, s1)"
    by (cases "(case s of [] \<Rightarrow> (False, s) | c # t \<Rightarrow> if c = 0x2D then (True, t) else (False, s))") blast
  then have s1: "length s1 \<le> length s" by (auto split: list.splits if_splits)
  from a n obtain fs s3 e where ds: "takeWhile isDigit s1 \<noteq> []"
    and f: "lexFraction (dropWhile isDigit s1) = Some (fs, s3)"
    and x: "lexExponent s3 = Some (e, r)"
    by (auto simp: lexNumber_def Let_def split: option.splits if_splits)
  from ds have "length (dropWhile isDigit s1) < length s1"
    using takeWhile_dropWhile_length [of isDigit s1] by (cases "takeWhile isDigit s1") simp_all
  with lexFraction_length [OF f] lexExponent_length [OF x] s1 show ?thesis by linarith
qed

definition tok :: "token \<Rightarrow> token list option \<Rightarrow> token list option" where
  "tok t r = (case r of None \<Rightarrow> None | Some ts \<Rightarrow> Some (t # ts))"

function tokenize :: "jsstring \<Rightarrow> token list option" where
  "tokenize [] = Some []"
| "tokenize (u # rest) =
     (if isJsonWhitespace u then tokenize rest
      else if u = 0x7B then tok TLBrace (tokenize rest)
      else if u = 0x7D then tok TRBrace (tokenize rest)
      else if u = 0x5B then tok TLBracket (tokenize rest)
      else if u = 0x5D then tok TRBracket (tokenize rest)
      else if u = 0x3A then tok TColon (tokenize rest)
      else if u = 0x2C then tok TComma (tokenize rest)
      else if u = 0x22 then
        (case lexString rest of
           None \<Rightarrow> None
         | Some (s, rest') \<Rightarrow> tok (TString s) (tokenize rest'))
      else if u = 0x2D \<or> isDigit u then
        (case lexNumber (u # rest) of
           None \<Rightarrow> None
         | Some (n, rest') \<Rightarrow> tok (TNumber n) (tokenize rest'))
      else if take 4 (u # rest) = js ''true'' then tok TTrue (tokenize (drop 4 (u # rest)))
      else if take 5 (u # rest) = js ''false'' then tok TFalse (tokenize (drop 5 (u # rest)))
      else if take 4 (u # rest) = js ''null'' then tok TNull (tokenize (drop 4 (u # rest)))
      else None)"
  by pat_completeness auto
termination
proof (relation "measure length")
  fix u rest x2 x y
  assume "lexString rest = Some x2" "(x, y) = x2"
  then show "(y, u # rest) \<in> measure length"
    using lexString_length [of rest x y] by simp
next
  fix u rest x2 x y
  assume "lexNumber (u # rest) = Some x2" "(x, y) = x2"
  then show "(y, u # rest) \<in> measure length"
    using lexNumber_length [of "u # rest" x y] by simp
qed auto

declare tokenize.simps(2) [simp del]

subsection \<open>JSON.parse: the grammar of values\<close>

datatype frame = FArr "json list" | FObj "(jsstring \<times> json) list" "jsstring option"

datatype expect = Value | ValueOrClose | KeyOrClose | Key | Colon | CommaOrClose | End json

fun deliver :: "json \<Rightarrow> frame list \<Rightarrow> (frame list \<times> expect) option" where
  "deliver v [] = Some ([], End v)"
| "deliver v (FArr items # st) = Some (FArr (items @ [v]) # st, CommaOrClose)"
| "deliver v (FObj members (Some k) # st) = Some (FObj (members @ [(k, v)]) None # st, CommaOrClose)"
| "deliver v (FObj members None # st) = None"

fun scalar :: "token \<Rightarrow> json option" where
  "scalar (TString s) = Some (JStr s)"
| "scalar (TNumber n) = Some n"
| "scalar TTrue = Some (JBool True)"
| "scalar TFalse = Some (JBool False)"
| "scalar TNull = Some JNull"
| "scalar _ = None"

fun value_step :: "frame list \<Rightarrow> token \<Rightarrow> (frame list \<times> expect) option" where
  "value_step st TLBracket = Some (FArr [] # st, ValueOrClose)"
| "value_step st TLBrace = Some (FObj [] None # st, KeyOrClose)"
| "value_step st t = (case scalar t of None \<Rightarrow> None | Some v \<Rightarrow> deliver v st)"

fun key_step :: "frame list \<Rightarrow> token \<Rightarrow> (frame list \<times> expect) option" where
  "key_step (FObj members None # st) (TString k) = Some (FObj members (Some k) # st, Colon)"
| "key_step _ _ = None"

fun close_array :: "frame list \<Rightarrow> (frame list \<times> expect) option" where
  "close_array (FArr items # st) = deliver (JArr items) st"
| "close_array _ = None"

fun close_object :: "frame list \<Rightarrow> (frame list \<times> expect) option" where
  "close_object (FObj members None # st) = deliver (JObj members) st"
| "close_object _ = None"

fun after_comma :: "frame list \<Rightarrow> (frame list \<times> expect) option" where
  "after_comma (FArr items # st) = Some (FArr items # st, Value)"
| "after_comma (FObj members None # st) = Some (FObj members None # st, Key)"
| "after_comma _ = None"

fun step :: "frame list \<times> expect \<Rightarrow> token \<Rightarrow> (frame list \<times> expect) option" where
  "step (st, Value) t = value_step st t"
| "step (st, ValueOrClose) t = (if t = TRBracket then close_array st else value_step st t)"
| "step (st, KeyOrClose) t = (if t = TRBrace then close_object st else key_step st t)"
| "step (st, Key) t = key_step st t"
| "step (st, Colon) t = (if t = TColon then Some (st, Value) else None)"
| "step (st, CommaOrClose) t =
     (if t = TComma then after_comma st
      else if t = TRBracket then close_array st
      else if t = TRBrace then close_object st
      else None)"
| "step (st, End v) t = None"

fun run :: "token list \<Rightarrow> frame list \<times> expect \<Rightarrow> (frame list \<times> expect) option" where
  "run [] s = Some s"
| "run (t # ts) s = (case step s t of None \<Rightarrow> None | Some s' \<Rightarrow> run ts s')"

definition JSON_parse :: "jsstring \<Rightarrow> exn + json" where
  "JSON_parse text =
     (case tokenize text of
        None \<Rightarrow> Inl SyntaxError
      | Some toks \<Rightarrow>
          (case run toks ([], Value) of
             Some ([], End v) \<Rightarrow> Inr v
           | _ \<Rightarrow> Inl SyntaxError))"

subsection \<open>Parsing inverts \<^verbatim>\<open>JSON.stringify\<close> on envelopes\<close>

lemma digit_cases:
  "d < 16 \<Longrightarrow> d = 0 \<or> d = 1 \<or> d = 2 \<or> d = 3 \<or> d = 4 \<or> d = 5 \<or> d = 6 \<or> d = 7
     \<or> d = 8 \<or> d = 9 \<or> d = 10 \<or> d = 11 \<or> d = 12 \<or> d = 13 \<or> d = 14 \<or> d = (15::nat)"
  by arith

lemma hexValue_digitChar: "d < 16 \<Longrightarrow> hexValue (digitChar d) = Some d"
  by (drule digit_cases, elim disjE) (simp_all add: hexValue_def digitChar_def)

lemma hexFixed_4:
  "hexFixed 4 n = [digitChar (n div 4096 mod 16), digitChar (n div 256 mod 16),
                   digitChar (n div 16 mod 16), digitChar (n mod 16)]"
  by (simp add: hexFixed_def upt_rec)

lemma hex_digits_sum:
  "n < 65536 \<Longrightarrow>
   ((n div 4096 mod 16 * 16 + n div 256 mod 16) * 16 + n div 16 mod 16) * 16 + n mod 16 = (n::nat)"
proof -
  assume n: "n < 65536"
  have a: "n div 4096 mod 16 = n div 4096"
    using n by (simp add: less_mult_imp_div_less)
  have b: "n div 4096 * 16 + n div 256 mod 16 = n div 256"
    using div_mult_mod_eq [of "n div 256" 16] by (simp add: div_mult2_eq [symmetric])
  have c: "n div 256 * 16 + n div 16 mod 16 = n div 16"
    using div_mult_mod_eq [of "n div 16" 16] by (simp add: div_mult2_eq [symmetric])
  show ?thesis
    by (simp only: a b c div_mult_mod_eq)
qed

lemma hex4_hexFixed:
  assumes "hexFixed 4 (unat (u :: 16 word)) = [h1, h2, h3, h4]"
  shows "hex4 h1 h2 h3 h4 = Some u"
proof -
  have "unat u < 2 ^ LENGTH(16)" by (rule unsigned_less)
  then have n: "unat u < 65536" by simp
  from assms have h: "h1 = digitChar (unat u div 4096 mod 16)" "h2 = digitChar (unat u div 256 mod 16)"
    "h3 = digitChar (unat u div 16 mod 16)" "h4 = digitChar (unat u mod 16)"
    by (simp_all add: hexFixed_4)
  have dv: "hexValue h1 = Some (unat u div 4096 mod 16)" "hexValue h2 = Some (unat u div 256 mod 16)"
    "hexValue h3 = Some (unat u div 16 mod 16)" "hexValue h4 = Some (unat u mod 16)"
    unfolding h by (simp_all add: hexValue_digitChar)
  have "hex4 h1 h2 h3 h4 = Some (of_nat (unat u))"
    unfolding hex4_def dv by (simp only: option.case prod.case hex_digits_sum [OF n])
  then show ?thesis by simp
qed

lemma lexString_UnicodeEscape: "lexString (UnicodeEscape u @ s) = push u (lexString s)"
proof -
  obtain h1 h2 h3 h4 where h: "hexFixed 4 (unat u) = [h1, h2, h3, h4]"
    by (simp add: hexFixed_4)
  from hex4_hexFixed [OF h] show ?thesis
    by (simp add: UnicodeEscape_def h)
qed

lemma lexString_plain:
  "u \<noteq> 0x22 \<Longrightarrow> u \<noteq> 0x5C \<Longrightarrow> \<not> u < 0x20 \<Longrightarrow> lexString (u # s) = push u (lexString s)"
  by simp

lemma lexString_escapeUnit: "lexString (escapeUnit u @ s) = push u (lexString s)"
  by (simp add: escapeUnit_def simpleEscape_def lexString_UnicodeEscape)

lemma surrogate_plain:
  assumes "isLeadingSurrogate u \<or> isTrailingSurrogate u"
  shows "u \<noteq> 0x22" "u \<noteq> 0x5C" "\<not> u < 0x20"
  using assms
  by (auto simp: isLeadingSurrogate_def isTrailingSurrogate_def word_le_nat_alt word_less_nat_alt)

lemma lexString_quoteUnits: "lexString (quoteUnits m @ 0x22 # rest) = Some (m, rest)"
proof (induction m rule: quoteUnits.induct)
  case (1 a b m)
  show ?case
  proof (cases "isLeadingSurrogate a \<and> isTrailingSurrogate b")
    case True
    then have "isLeadingSurrogate a \<or> isTrailingSurrogate a"
      "isLeadingSurrogate b \<or> isTrailingSurrogate b" by simp_all
    then have "lexString (a # b # quoteUnits m @ 0x22 # rest)
        = push a (push b (lexString (quoteUnits m @ 0x22 # rest)))"
      by (simp only: lexString_plain surrogate_plain [of a] surrogate_plain [of b]
          not_False_eq_True)
    with True 1 show ?thesis by (simp add: push_def)
  next
    case False
    then have "quoteUnits (a # b # m) = escapeUnit a @ quoteUnits (b # m)"
      by (subst quoteUnits.simps(1)) (simp only: if_False)
    then show ?thesis
      using "1.IH"(2) [OF False]
      by (simp add: lexString_escapeUnit push_def del: lexString.simps quoteUnits.simps)
  qed
next
  case (2 a)
  have "lexString (escapeUnit a @ 0x22 # rest) = push a (lexString (0x22 # rest))"
    by (rule lexString_escapeUnit)
  then show ?case by (simp add: push_def)
qed simp

lemma digit10_cases:
  "d < 10 \<Longrightarrow> d = 0 \<or> d = 1 \<or> d = 2 \<or> d = 3 \<or> d = 4 \<or> d = 5 \<or> d = 6 \<or> d = 7
     \<or> d = 8 \<or> d = (9::nat)"
  by arith

lemma digitChar_decimal:
  assumes "d < 10"
  shows "isDigit (digitChar d)" "unat (digitChar d) - 48 = d" "digitChar d = 0x30 \<longleftrightarrow> d = 0"
    "digitChar d \<noteq> 0x2D"
  using digit10_cases [OF assms]
  by (elim disjE; simp add: isDigit_def digitChar_def)+

lemma digitsOf_10_digits: "list_all isDigit (digitsOf 10 k)"
proof (induction k rule: less_induct)
  case (less k)
  show ?case
  proof (cases "k < 10")
    case True
    then show ?thesis by (subst digitsOf.simps) (simp add: digitChar_decimal)
  next
    case False
    then have "k div 10 < k" by simp
    from less [OF this] False show ?thesis
      by (subst digitsOf.simps) (simp add: digitChar_decimal)
  qed
qed

lemma digitsValue_snoc: "digitsValue (ds @ [d]) = digitsValue ds * 10 + (unat d - 48)"
  by (simp add: digitsValue_def)

lemma digitsValue_digitsOf: "digitsValue (digitsOf 10 k) = k"
proof (induction k rule: less_induct)
  case (less k)
  show ?case
  proof (cases "k < 10")
    case True
    then show ?thesis
      by (subst digitsOf.simps) (simp add: digitsValue_def digitChar_decimal)
  next
    case False
    then have "k div 10 < k" by simp
    from less [OF this] False show ?thesis
      by (subst digitsOf.simps) (simp add: digitsValue_snoc digitChar_decimal)
  qed
qed

lemma digitsOf_10_hd:
  "digitsOf 10 k \<noteq> [] \<and> (hd (digitsOf 10 k) = 0x30 \<longrightarrow> digitsOf 10 k = [0x30])
   \<and> hd (digitsOf 10 k) \<noteq> 0x2D"
proof (induction k rule: less_induct)
  case (less k)
  show ?case
  proof (cases "k < 10")
    case True
    then show ?thesis
      by (subst (1 2 3 4) digitsOf.simps) (auto simp: digitChar_decimal)
  next
    case False
    then have lt: "k div 10 < k" and pos: "0 < k div 10" by simp_all
    have ne: "digitsOf 10 (k div 10) \<noteq> [0x30]"
    proof
      assume "digitsOf 10 (k div 10) = [0x30]"
      then have "digitsValue (digitsOf 10 (k div 10)) = 0" by (simp add: digitsValue_def)
      with pos show False by (simp add: digitsValue_digitsOf)
    qed
    have e: "digitsOf 10 k = digitsOf 10 (k div 10) @ [digitChar (k mod 10)]"
      using False by (subst digitsOf.simps) simp
    from less [OF lt] ne show ?thesis
      unfolding e by (auto simp: hd_append)
  qed
qed

lemma takeWhile_digits:
  assumes "list_all isDigit ds" "\<not> isDigit c"
  shows "takeWhile isDigit (ds @ c # rest) = ds" "dropWhile isDigit (ds @ c # rest) = c # rest"
  using assms by (induction ds) simp_all

lemma lexNumber_digitsOf:
  assumes "\<not> isDigit c" "c \<noteq> 0x2E" "c \<noteq> 0x65" "c \<noteq> 0x45"
  shows "lexNumber (digitsOf 10 k @ c # rest) = Some (numberValue False k 0, c # rest)"
    and "lexNumber (0x2D # digitsOf 10 k @ c # rest) = Some (numberValue True k 0, c # rest)"
proof -
  let ?ds = "digitsOf 10 k"
  have tw: "takeWhile isDigit (?ds @ c # rest) = ?ds" "dropWhile isDigit (?ds @ c # rest) = c # rest"
    using digitsOf_10_digits assms(1) by (rule takeWhile_digits)+
  have hd: "?ds \<noteq> []" "hd ?ds = 0x30 \<longrightarrow> ?ds = [0x30]" "hd ?ds \<noteq> 0x2D"
    using digitsOf_10_hd [of k] by simp_all
  have lz: "\<not> (?ds = [] \<or> (length ?ds > 1 \<and> hd ?ds = 0x30))"
    using hd by auto
  have fr: "lexFraction (c # rest) = Some ([], c # rest)"
    using assms by (simp add: lexFraction_def)
  have ex: "lexExponent (c # rest) = Some (0, c # rest)"
    using assms by (simp add: lexExponent_def)
  have first: "(case ?ds @ c # rest of [] \<Rightarrow> (False, ?ds @ c # rest)
                | x # t \<Rightarrow> if x = 0x2D then (True, t) else (False, ?ds @ c # rest))
               = (False, ?ds @ c # rest)"
    using hd by (cases ?ds) simp_all
  show "lexNumber (?ds @ c # rest) = Some (numberValue False k 0, c # rest)"
    unfolding lexNumber_def first using lz
    by (simp add: Let_def tw fr ex digitsValue_digitsOf)
  show "lexNumber (0x2D # ?ds @ c # rest) = Some (numberValue True k 0, c # rest)"
    unfolding lexNumber_def using lz
    by (simp add: Let_def tw fr ex digitsValue_digitsOf)
qed

lemma numberValue_int:
  "\<bar>n\<bar> \<le> 2 ^ 53 \<Longrightarrow> numberValue (n < 0) (nat \<bar>n\<bar>) 0 = JNum n"
  by (auto simp: numberValue_def Let_def)

lemma lexNumber_toString:
  assumes "\<not> isDigit c" "c \<noteq> 0x2E" "c \<noteq> 0x65" "c \<noteq> 0x45"
  shows "lexNumber (toString 10 n @ c # rest) = Some (numberValue (n < 0) (nat \<bar>n\<bar>) 0, c # rest)"
proof (cases "n < 0")
  case True
  then have "toString 10 n = 0x2D # digitsOf 10 (nat \<bar>n\<bar>)" by (simp add: toString_def js_def)
  with True lexNumber_digitsOf(2) [OF assms] show ?thesis by simp
next
  case False
  then have "toString 10 n = digitsOf 10 (nat \<bar>n\<bar>)" by (simp add: toString_def)
  with False lexNumber_digitsOf(1) [OF assms] show ?thesis by simp
qed

lemma toString_10_first:
  "\<exists>u t. toString 10 n = u # t \<and> (u = 0x2D \<or> isDigit u)"
proof -
  have "\<exists>u t. digitsOf 10 k = u # t \<and> isDigit u" for k
  proof (cases "digitsOf 10 k")
    case Nil
    with digitsOf_10_hd [of k] show ?thesis by simp
  next
    case (Cons a l)
    with digitsOf_10_digits [of k] show ?thesis by simp
  qed
  then obtain u t where "digitsOf 10 (nat \<bar>n\<bar>) = u # t" "isDigit u" by blast
  then show ?thesis
    by (cases "n < 0") (auto simp: toString_def js_def)
qed

lemma tokenize_QuoteJSONString: "tokenize (QuoteJSONString s @ rest) = tok (TString s) (tokenize rest)"
  by (simp add: QuoteJSONString_def tokenize.simps(2) isJsonWhitespace_def lexString_quoteUnits)

lemma tokenize_toString:
  assumes "\<not> isDigit c" "c \<noteq> 0x2E" "c \<noteq> 0x65" "c \<noteq> 0x45"
  shows "tokenize (toString 10 n @ c # rest)
       = tok (TNumber (numberValue (n < 0) (nat \<bar>n\<bar>) 0)) (tokenize (c # rest))"
proof -
  obtain u t where ut: "toString 10 n = u # t" and u: "u = 0x2D \<or> isDigit u"
    using toString_10_first [of n] by blast
  have l: "lexNumber (u # t @ c # rest) = Some (numberValue (n < 0) (nat \<bar>n\<bar>) 0, c # rest)"
    using lexNumber_toString [OF assms, of n rest] by (simp add: ut)
  from u have "\<not> isJsonWhitespace u" "u \<noteq> 0x7B" "u \<noteq> 0x7D" "u \<noteq> 0x5B" "u \<noteq> 0x5D" "u \<noteq> 0x3A"
    "u \<noteq> 0x2C" "u \<noteq> 0x22"
    by (auto simp: isJsonWhitespace_def isDigit_def)
  with u show ?thesis
    unfolding ut by (simp add: tokenize.simps(2) l)
qed

lemma tokenize_punct:
  "tokenize (0x7B # rest) = tok TLBrace (tokenize rest)"
  "tokenize (0x7D # rest) = tok TRBrace (tokenize rest)"
  "tokenize (0x3A # rest) = tok TColon (tokenize rest)"
  "tokenize (0x2C # rest) = tok TComma (tokenize rest)"
  by (simp_all add: tokenize.simps(2) isJsonWhitespace_def)

lemma tokenize_envelope:
  "tokenize (JSON_stringify_envelope msg ts seed checksum) =
     Some [TLBrace, TString (js ''msg''), TColon, TString msg, TComma,
           TString (js ''ts''), TColon, TNumber (numberValue (ts < 0) (nat \<bar>ts\<bar>) 0), TComma,
           TString (js ''seed''), TColon, TNumber (numberValue (seed < 0) (nat \<bar>seed\<bar>) 0), TComma,
           TString (js ''checksum''), TColon, TString checksum, TRBrace]"
proof -
  have c: "\<not> isDigit 0x2C" "(0x2C :: 16 word) \<noteq> 0x2E" "(0x2C :: 16 word) \<noteq> 0x65"
    "(0x2C :: 16 word) \<noteq> 0x45"
    by (simp_all add: isDigit_def)
  have j: "js ''{'' = [0x7B]" "js '':'' = [0x3A]" "js '','' = [0x2C]" "js ''}'' = [0x7D]"
    by (simp_all add: js_def)
  show ?thesis
    unfolding JSON_stringify_envelope_def j
    by (simp only: append_Cons append_Nil tokenize_punct tokenize_QuoteJSONString tokenize_toString [OF c]
        tokenize.simps(1) tok_def option.case)
qed

lemma JSON_parse_envelope:
  "JSON_parse (JSON_stringify_envelope msg ts seed checksum) =
     Inr (JObj [(js ''msg'', JStr msg),
                (js ''ts'', numberValue (ts < 0) (nat \<bar>ts\<bar>) 0),
                (js ''seed'', numberValue (seed < 0) (nat \<bar>seed\<bar>) 0),
                (js ''checksum'', JStr checksum)])"
  by (simp add: JSON_parse_def tokenize_envelope)


section \<open>\<^verbatim>\<open>encrypt\<close>\<close>

text \<open>
  \<^verbatim>\<open>
  encrypt(message, customTimeSeed = null) {
      try {
          const timeSeed = customTimeSeed || this.getTimeSeed();
          const timeKey = this.generateTimeKey(timeSeed);
          const timestamp = Date.now();
          const messageWithMeta = JSON.stringify({
              msg: message, ts: timestamp, seed: timeSeed,
              checksum: this.simpleHash(message + timestamp)
          });
          const encrypted = this.xorCipher(messageWithMeta, timeKey);
          const base64Encrypted = btoa(encrypted);
          return 'NFC_' + base64Encrypted;
      } catch (error) {
          throw new Error('Encryption failed: ' + error.message);
      }
  }
  \<close>
  The message is a string and the custom seed an integer or absent. Of the calls in the
  \<^verbatim>\<open>try\<close> block only \<^verbatim>\<open>btoa\<close> can throw.
\<close>

definition encrypt ::
  "CryptoEngine \<Rightarrow> jsstring \<Rightarrow> int option \<Rightarrow> clock \<Rightarrow> jsstring completion \<times> clock" where
  "encrypt this message customTimeSeed c =
     (let (timeSeed, c1) = orTimeSeed this customTimeSeed c;
          (timeKey, c2) = generateTimeKey this (Some timeSeed) c1;
          (timestamp, c3) = Date_now c2;
          messageWithMeta =
            JSON_stringify_envelope message timestamp timeSeed
              (simpleHash (message @ toString 10 timestamp));
          encrypted = xorCipher messageWithMeta timeKey
      in case btoa encrypted of
           Inl e \<Rightarrow> (Throw (rethrow ''Encryption failed: '' e), c3)
         | Inr base64Encrypted \<Rightarrow> (Return (js ''NFC_'' @ base64Encrypted), c3))"

section \<open>\<^verbatim>\<open>attemptDecrypt\<close>\<close>

text \<open>
  \<^verbatim>\<open>
  attemptDecrypt(encrypted, timeSeed = null) {
      try {
          const useTimeSeed = timeSeed || this.getTimeSeed();
          const timeKey = this.generateTimeKey(useTimeSeed);
          const decrypted = this.xorCipher(encrypted, timeKey);
          const messageData = JSON.parse(decrypted);
          if (!messageData.msg || !messageData.ts || !messageData.checksum) {
              return null;
          }
          const expectedChecksum = this.simpleHash(messageData.msg + messageData.ts);
          if (messageData.checksum !== expectedChecksum) {
              return null;
          }
          const age = Date.now() - messageData.ts;
          if (age > 86400000) { // 24 hours
              throw new Error('Message expired');
          }
          return messageData.msg;
      } catch (error) {
          return null;
      }
  }
  \<close>
  The parsed text can be any JSON value, so the operators work on values of any type.
  What is modelled of them:
  \<^item> a property read throws \<open>TypeError\<close> on \<^verbatim>\<open>null\<close>, finds the last member of that
    name in an object and is \<^verbatim>\<open>undefined\<close> (\<open>None\<close>) on every other value;
  \<^item> \<^verbatim>\<open>!v\<close>: \<^verbatim>\<open>undefined\<close>, \<^verbatim>\<open>null\<close>, \<^verbatim>\<open>false\<close>, 0 and the empty string are
    falsy; whether a \<open>JNumOther\<close> is 0 (a literal can underflow) is not modelled;
  \<^item> \<^verbatim>\<open>a + b\<close> concatenates when an operand is a string, and is a number when both
    operands are numbers, booleans or \<^verbatim>\<open>null\<close>; the strings of arrays, objects and
    \<open>JNumOther\<close> are not modelled;
  \<^item> \<^verbatim>\<open>simpleHash\<close> of a number is \<open>00000000\<close>: a number has no \<^verbatim>\<open>length\<close>, so
    neither the test for the empty string nor the loop applies;
  \<^item> \<^verbatim>\<open>Date.now() - ts\<close> for an integer or boolean \<open>ts\<close>; other operands are not
    modelled.
  Where an unmodelled operation decides the result, the outcome is \<open>Unmodelled\<close>.
\<close>

fun getProp :: "json \<Rightarrow> jsstring \<Rightarrow> exn + json option" where
  "getProp JNull k = Inl TypeError"
| "getProp (JObj members) k = Inr (map_of (rev members) k)"
| "getProp _ k = Inr None"

fun truthy :: "json option \<Rightarrow> bool option" where
  "truthy None = Some False"
| "truthy (Some JNull) = Some False"
| "truthy (Some (JBool b)) = Some b"
| "truthy (Some (JNum n)) = Some (n \<noteq> 0)"
| "truthy (Some JNumOther) = None"
| "truthy (Some (JStr s)) = Some (s \<noteq> [])"
| "truthy (Some (JArr xs)) = Some True"
| "truthy (Some (JObj ms)) = Some True"

definition falsy :: "json \<Rightarrow> bool" where
  "falsy v = (truthy (Some v) = Some False)"

datatype addition = SumString jsstring | SumNumber | SumUnmodelled

fun primitiveString :: "json \<Rightarrow> jsstring option" where
  "primitiveString (JStr s) = Some s"
| "primitiveString (JNum n) = Some (toString 10 n)"
| "primitiveString (JBool b) = Some (if b then js ''true'' else js ''false'')"
| "primitiveString JNull = Some (js ''null'')"
| "primitiveString _ = None"

fun isString :: "json \<Rightarrow> bool" where
  "isString (JStr s) = True"
| "isString _ = False"

fun isContainer :: "json \<Rightarrow> bool" where
  "isContainer (JArr xs) = True"
| "isContainer (JObj ms) = True"
| "isContainer _ = False"

definition js_add :: "json \<Rightarrow> json \<Rightarrow> addition" where
  "js_add a b =
     (if isContainer a \<or> isContainer b then SumUnmodelled
      else if isString a \<or> isString b then
        (case (primitiveString a, primitiveString b) of
           (Some x, Some y) \<Rightarrow> SumString (x @ y)
         | _ \<Rightarrow> SumUnmodelled)
      else SumNumber)"

fun simpleHash_of :: "addition \<Rightarrow> jsstring option" where
  "simpleHash_of (SumString s) = Some (simpleHash s)"
| "simpleHash_of SumNumber = Some (js ''00000000'')"
| "simpleHash_of SumUnmodelled = None"

fun now_minus :: "int \<Rightarrow> json \<Rightarrow> int option" where
  "now_minus now (JNum n) = Some (now - n)"
| "now_minus now (JBool b) = Some (now - (if b then 1 else 0))"
| "now_minus now JNull = Some now"
| "now_minus now _ = None"

text \<open>The statements after \<^verbatim>\<open>JSON.parse\<close>, on the parsed value.\<close>

definition validate :: "json \<Rightarrow> clock \<Rightarrow> json completion \<times> clock" where
  "validate messageData c =
     (case (getProp messageData (js ''msg''), getProp messageData (js ''ts''),
            getProp messageData (js ''checksum'')) of
        (Inr msg, Inr ts, Inr checksum) \<Rightarrow>
          if truthy msg = Some False \<or> truthy ts = Some False \<or> truthy checksum = Some False
          then (Return JNull, c)
          else
            (case (msg, ts, checksum) of
               (Some m, Some t, Some k) \<Rightarrow>
                 if truthy msg = None \<or> truthy ts = None \<or> truthy checksum = None
                 then (Unmodelled, c)
                 else if \<not> isString k then (Return JNull, c)
                 else
                   (case simpleHash_of (js_add m t) of
                      None \<Rightarrow> (Unmodelled, c)
                    | Some expectedChecksum \<Rightarrow>
                        if k \<noteq> JStr expectedChecksum then (Return JNull, c)
                        else
                          (let (now, c1) = Date_now c in
                           case now_minus now t of
                             None \<Rightarrow> (Unmodelled, c1)
                           | Some age \<Rightarrow>
                               if age > 86400000 then (Throw (Error ''Message expired''), c1)
                               else (Return m, c1)))
             | _ \<Rightarrow> (Return JNull, c))
      | _ \<Rightarrow> (Throw TypeError, c))"

definition attemptDecrypt_try ::
  "CryptoEngine \<Rightarrow> jsstring \<Rightarrow> int option \<Rightarrow> clock \<Rightarrow> json completion \<times> clock" where
  "attemptDecrypt_try this encrypted timeSeed c =
     (let (useTimeSeed, c1) = orTimeSeed this timeSeed c;
          (timeKey, c2) = generateTimeKey this (Some useTimeSeed) c1;
          decrypted = xorCipher encrypted timeKey
      in case JSON_parse decrypted of
           Inl e \<Rightarrow> (Throw e, c2)
         | Inr messageData \<Rightarrow> validate messageData c2)"

text \<open>The \<^verbatim>\<open>catch\<close> block turns every exception of the body into \<^verbatim>\<open>null\<close>.\<close>

definition attemptDecrypt ::
  "CryptoEngine \<Rightarrow> jsstring \<Rightarrow> int option \<Rightarrow> clock \<Rightarrow> json completion \<times> clock" where
  "attemptDecrypt this encrypted timeSeed c =
     (case attemptDecrypt_try this encrypted timeSeed c of
        (Throw error, c1) \<Rightarrow> (Return JNull, c1)
      | r \<Rightarrow> r)"

section \<open>\<^verbatim>\<open>decrypt\<close>\<close>

text \<open>
  \<^verbatim>\<open>
  decrypt(encryptedData) {
      try {
          if (!encryptedData.startsWith('NFC_')) {
              throw new Error('Invalid encrypted format');
          }
          const base64Data = encryptedData.substring(4);
          const encrypted = atob(base64Data);
          let decrypted = this.attemptDecrypt(encrypted);
          if (!decrypted) {
              for (let i = 1; i <= 3; i++) {
                  const pastTimeSeed = this.getTimeSeed() - i;
                  decrypted = this.attemptDecrypt(encrypted, pastTimeSeed);
                  if (decrypted) break;
              }
          }
          if (!decrypted) {
              throw new Error('Decryption failed - invalid key or expired data');
          }
          return decrypted;
      } catch (error) {
          throw new Error('Decryption failed: ' + error.message);
      }
  }
  \<close>
  \<open>decrypt_retry\<close> is the \<^verbatim>\<open>for\<close> loop from \<open>i\<close> on; it returns the value of
  \<^verbatim>\<open>decrypted\<close> when the loop ends, \<^verbatim>\<open>null\<close> when no attempt succeeded.
\<close>

function decrypt_retry ::
  "CryptoEngine \<Rightarrow> jsstring \<Rightarrow> nat \<Rightarrow> clock \<Rightarrow> json completion \<times> clock" where
  "decrypt_retry this encrypted i c =
     (if i \<le> 3 then
        (let (seed, c1) = getTimeSeed this c;
             pastTimeSeed = seed - int i
         in case attemptDecrypt this encrypted (Some pastTimeSeed) c1 of
              (Return decrypted, c2) \<Rightarrow>
                if \<not> falsy decrypted then (Return decrypted, c2)
                else decrypt_retry this encrypted (i + 1) c2
            | r \<Rightarrow> r)
      else (Return JNull, c))"
  by pat_completeness auto
termination
  by (relation "measure (\<lambda>(this, encrypted, i, c). 4 - i)") auto

declare decrypt_retry.simps [simp del]

definition startsWith :: "jsstring \<Rightarrow> jsstring \<Rightarrow> bool" where
  "startsWith s p = (take (length p) s = p)"

definition decrypt_try ::
  "CryptoEngine \<Rightarrow> jsstring \<Rightarrow> clock \<Rightarrow> json completion \<times> clock" where
  "decrypt_try this encryptedData c =
     (if \<not> startsWith encryptedData (js ''NFC_'') then
        (Throw (Error ''Invalid encrypted format''), c)
      else
        (let base64Data = drop 4 encryptedData in
         case atob base64Data of
           Inl e \<Rightarrow> (Throw e, c)
         | Inr encrypted \<Rightarrow>
             (case attemptDecrypt this encrypted None c of
                (Return decrypted, c1) \<Rightarrow>
                  (case (if falsy decrypted then decrypt_retry this encrypted 1 c1
                         else (Return decrypted, c1)) of
                     (Return decrypted', c2) \<Rightarrow>
                       if falsy decrypted'
                       then (Throw (Error ''Decryption failed - invalid key or expired data''), c2)
                       else (Return decrypted', c2)
                   | r \<Rightarrow> r)
              | r \<Rightarrow> r)))"

text \<open>The \<^verbatim>\<open>catch\<close> block rethrows every exception of the body under a prefix.\<close>

definition decrypt ::
  "CryptoEngine \<Rightarrow> jsstring \<Rightarrow> clock \<Rightarrow> json completion \<times> clock" where
  "decrypt this encryptedData c =
     (case decrypt_try this encryptedData c of
        (Throw error, c1) \<Rightarrow> (Throw (rethrow ''Decryption failed: '' error), c1)
      | r \<Rightarrow> r)"

section \<open>Windows and time keys\<close>

text \<open>
  The time key of window \<open>w\<close>, \<open>hash(masterKey + w.toString())\<close>, and what it means
  that every reading of a clock lies in window \<open>w\<close>.
\<close>

definition timeKeyOf :: "CryptoEngine \<Rightarrow> int \<Rightarrow> jsstring" where
  "timeKeyOf this w = simpleHash (masterKey this @ toString 10 w)"

definition in_window :: "int \<Rightarrow> clock \<Rightarrow> bool" where
  "in_window w c = (\<forall>i. readings c i div 300000 = w)"

lemma in_window_reads [simp]: "in_window w (c\<lparr>reads := n\<rparr>) = in_window w c"
  by (simp add: in_window_def)

lemma Date_now_window:
  "in_window w c \<Longrightarrow> fst (Date_now c) div 300000 = w"
  by (simp add: Date_now_def in_window_def)

lemma getTimeSeed_window:
  "timeWindow this = 300000 \<Longrightarrow> in_window w c \<Longrightarrow>
   getTimeSeed this c = (w, c\<lparr>reads := reads c + 1\<rparr>)"
  by (simp add: getTimeSeed_def Date_now_def in_window_def)

lemma orTimeSeed_window:
  assumes "timeWindow this = 300000" "in_window w c"
  shows "orTimeSeed this None c = (w, c\<lparr>reads := reads c + 1\<rparr>)"
    and "orTimeSeed this (Some 0) c = (w, c\<lparr>reads := reads c + 1\<rparr>)"
    and "s \<noteq> 0 \<Longrightarrow> orTimeSeed this (Some s) c = (s, c)"
  using assms by (simp_all add: orTimeSeed_def getTimeSeed_window)

text \<open>With the clock in window \<open>w\<close>, the key of seed \<open>w\<close> is the time key of \<open>w\<close>, also when \<open>w\<close> is 0.\<close>

lemma generateTimeKey_window:
  assumes "timeWindow this = 300000" "in_window w c"
  shows "\<exists>k. generateTimeKey this (Some w) c = (timeKeyOf this w, c\<lparr>reads := reads c + k\<rparr>)"
proof (cases "w = 0")
  case True
  then have "generateTimeKey this (Some w) c = (timeKeyOf this w, c\<lparr>reads := reads c + 1\<rparr>)"
    using assms by (simp add: generateTimeKey_def orTimeSeed_window timeKeyOf_def)
  then show ?thesis by blast
next
  case False
  then have "generateTimeKey this (Some w) c = (timeKeyOf this w, c\<lparr>reads := reads c + 0\<rparr>)"
    by (simp add: generateTimeKey_def orTimeSeed_def timeKeyOf_def)
  then show ?thesis by blast
qed

lemma generateTimeKey_nonzero:
  "s \<noteq> 0 \<Longrightarrow> generateTimeKey this (Some s) c = (timeKeyOf this s, c)"
  by (simp add: generateTimeKey_def orTimeSeed_def timeKeyOf_def)

section \<open>Which messages \<^verbatim>\<open>encrypt\<close> accepts\<close>

text \<open>A string that \<^verbatim>\<open>btoa\<close> accepts: every code unit is at most 255.\<close>

definition latin1 :: "jsstring \<Rightarrow> bool" where
  "latin1 s = list_all (\<lambda>u. u \<le> 255) s"

lemma latin1_simps [simp]:
  "latin1 [] = True" "latin1 (u # s) = (u \<le> 255 \<and> latin1 s)" "latin1 (s @ t) = (latin1 s \<and> latin1 t)"
  by (simp_all add: latin1_def)

lemma latin1_iff: "latin1 s \<longleftrightarrow> (\<forall>u \<in> set s. u \<le> 255)"
  by (simp add: latin1_def list_all_iff)

lemma le_255_take_bit: "(a :: 16 word) \<le> 255 \<longleftrightarrow> take_bit 8 (unat a) = unat a"
proof -
  have "(unat a \<le> 255) = (unat a < 2 ^ 8)" by auto
  then show ?thesis by (simp add: word_le_nat_alt take_bit_nat_eq_self_iff)
qed

lemma xor_le_255: "(a :: 16 word) \<le> 255 \<Longrightarrow> b \<le> 255 \<Longrightarrow> a XOR b \<le> 255"
  by (simp add: le_255_take_bit unsigned_xor_eq)

lemma xor_le_255_iff: "(b :: 16 word) \<le> 255 \<Longrightarrow> a XOR b \<le> 255 \<longleftrightarrow> a \<le> 255"
proof
  assume b: "b \<le> 255" and ab: "a XOR b \<le> 255"
  from ab b have "(a XOR b) XOR b \<le> 255" by (rule xor_le_255)
  then show "a \<le> 255" by (simp add: xor.assoc)
next
  assume "b \<le> 255" "a \<le> 255"
  then show "a XOR b \<le> 255" by (simp add: xor_le_255)
qed

lemma latin1_map2_xor:
  "length ks = length xs \<Longrightarrow> latin1 ks \<Longrightarrow> latin1 (map2 (XOR) xs ks) = latin1 xs"
  by (induction xs ks rule: list_induct2') (simp_all add: xor_le_255_iff)

lemma latin1_js_hex: "latin1 (js ''0123456789abcdef'')"
  by (simp add: js_def)

lemma latin1_subset: "set s \<subseteq> set t \<Longrightarrow> latin1 t \<Longrightarrow> latin1 s"
  by (auto simp: latin1_iff)

lemma latin1_simpleHash: "latin1 (simpleHash s)"
  using set_hexFixed latin1_js_hex unfolding simpleHash_hexFixed by (rule latin1_subset)

lemma latin1_keyBlocks: "latin1 (keyBlocks seed c n)"
  by (induction n arbitrary: c) (simp_all add: keyBlocks_0 keyBlocks_Suc latin1_simpleHash)

lemma latin1_take: "latin1 s \<Longrightarrow> latin1 (take n s)"
  by (auto simp: latin1_iff dest: in_set_takeD)

lemma latin1_expandKey: "latin1 key \<Longrightarrow> latin1 (expandKey key n)"
  by (simp add: expandKey_blocks latin1_take latin1_keyBlocks)

lemma latin1_xorCipher: "latin1 key \<Longrightarrow> latin1 (xorCipher data key) = latin1 data"
  by (simp add: xorCipher_map2 latin1_map2_xor length_expandKey latin1_expandKey)

lemma latin1_timeKeyOf: "latin1 (timeKeyOf this w)"
  by (simp add: timeKeyOf_def latin1_simpleHash)

lemma latin1_digitsOf_10: "latin1 (digitsOf 10 k)"
proof -
  have "isDigit u \<Longrightarrow> u \<le> 255" for u by (simp add: isDigit_def word_le_nat_alt)
  with digitsOf_10_digits [of k] show ?thesis
    by (auto simp: latin1_iff list_all_iff)
qed

lemma latin1_toString: "latin1 (toString 10 n)"
  by (simp add: toString_def js_def latin1_digitsOf_10)

lemma latin1_hexFixed: "latin1 (hexFixed k n)"
  using set_hexFixed latin1_js_hex by (rule latin1_subset)

lemma latin1_escapeUnit: "u \<le> 255 \<Longrightarrow> latin1 (escapeUnit u)"
  by (simp add: escapeUnit_def UnicodeEscape_def latin1_hexFixed)

lemma not_surrogate_latin1: "u \<le> 255 \<Longrightarrow> \<not> isLeadingSurrogate u"
  by (auto simp: isLeadingSurrogate_def word_le_nat_alt)

lemma latin1_quoteUnits: "latin1 m \<Longrightarrow> latin1 (quoteUnits m)"
  by (induction m rule: quoteUnits.induct)
    (simp_all add: latin1_escapeUnit not_surrogate_latin1)

lemma latin1_QuoteJSONString: "latin1 (QuoteJSONString s) = latin1 (quoteUnits s)"
  by (simp add: QuoteJSONString_def)

lemma latin1_keys:
  "latin1 (quoteUnits (js ''msg''))" "latin1 (quoteUnits (js ''ts''))"
  "latin1 (quoteUnits (js ''seed''))" "latin1 (quoteUnits (js ''checksum''))"
  by (rule latin1_quoteUnits, simp add: js_def)+

lemma latin1_envelope:
  "latin1 (JSON_stringify_envelope msg ts seed (simpleHash x)) = latin1 (quoteUnits msg)"
proof -
  have p: "latin1 (js ''{'')" "latin1 (js '':'')" "latin1 (js '','')" "latin1 (js ''}'')"
    by (simp_all add: js_def)
  have h: "latin1 (quoteUnits (simpleHash x))"
    by (rule latin1_quoteUnits) (rule latin1_simpleHash)
  show ?thesis
    unfolding JSON_stringify_envelope_def
    by (simp only: latin1_simps latin1_QuoteJSONString latin1_keys latin1_toString p h simp_thms)
qed

lemma btoa_Inr_iff: "(\<exists>b. btoa s = Inr b) \<longleftrightarrow> latin1 s"
  by (simp add: btoa_def latin1_def)

lemma generateTimeKey_latin1: "latin1 (fst (generateTimeKey this seed c))"
  by (simp add: generateTimeKey_def Let_def latin1_simpleHash split: prod.splits)

lemma btoa_latin1: "btoa s = (if latin1 s then Inr (b64encode (map unat s)) else Inl InvalidCharacterError)"
  by (simp add: btoa_def latin1_def)

lemma encrypt_cases:
  "encrypt this message customTimeSeed c =
     (let (timeSeed, c1) = orTimeSeed this customTimeSeed c;
          (timeKey, c2) = generateTimeKey this (Some timeSeed) c1;
          (timestamp, c3) = Date_now c2;
          envelope = JSON_stringify_envelope message timestamp timeSeed
                       (simpleHash (message @ toString 10 timestamp))
      in if latin1 (quoteUnits message)
         then (Return (js ''NFC_'' @ b64encode (map unat (xorCipher envelope timeKey))), c3)
         else (Throw (ErrorWithMessageOf ''Encryption failed: '' InvalidCharacterError), c3))"
proof -
  obtain timeSeed c1 where a: "orTimeSeed this customTimeSeed c = (timeSeed, c1)"
    by (cases "orTimeSeed this customTimeSeed c")
  obtain timeKey c2 where b: "generateTimeKey this (Some timeSeed) c1 = (timeKey, c2)"
    by (cases "generateTimeKey this (Some timeSeed) c1")
  obtain timestamp c3 where d: "Date_now c2 = (timestamp, c3)"
    by (cases "Date_now c2")
  have k: "latin1 timeKey"
    using generateTimeKey_latin1 [of this "Some timeSeed" c1] by (simp add: b)
  show ?thesis
    by (simp add: encrypt_def a b d btoa_latin1 latin1_xorCipher [OF k] latin1_envelope rethrow_def)
qed

text \<open>
  C4 (as amended). Serialising the envelope never fails. \<^verbatim>\<open>encrypt\<close> throws exactly
  when the JSON text of the message has a code unit above 255, which \<^verbatim>\<open>btoa\<close>
  refuses; on every other message it returns \<open>NFC_\<close> followed by the base64 encoding
  of the XOR transform, under the time key, of the serialised envelope.
\<close>

theorem encrypt_fails_only_on_btoa:
  "encrypt this message customTimeSeed c =
     (let (timeSeed, c1) = orTimeSeed this customTimeSeed c;
          (timeKey, c2) = generateTimeKey this (Some timeSeed) c1;
          (timestamp, c3) = Date_now c2;
          envelope = JSON_stringify_envelope message timestamp timeSeed
                       (simpleHash (message @ toString 10 timestamp))
      in if latin1 (quoteUnits message)
         then (Return (js ''NFC_'' @ b64encode (map unat (xorCipher envelope timeKey))), c3)
         else (Throw (ErrorWithMessageOf ''Encryption failed: '' InvalidCharacterError), c3))"
  by (rule encrypt_cases)

text \<open>
  C4 as stated fails on the message that is the euro sign (U+20AC): it serialises to a
  JSON string, and \<^verbatim>\<open>encrypt\<close> throws.
\<close>

theorem encrypt_euro_sign_throws:
  "QuoteJSONString [0x20AC] = [0x22, 0x20AC, 0x22]
   \<and> fst (encrypt (new_CryptoEngine (js ''device'')) [0x20AC] None
          \<lparr>readings = \<lambda>i. 1700000000000, reads = 0\<rparr>)
     = Throw (ErrorWithMessageOf ''Encryption failed: '' InvalidCharacterError)"
proof -
  have q: "escapeUnit 0x20AC = [0x20AC]"
    by (simp add: escapeUnit_def isLeadingSurrogate_def isTrailingSurrogate_def)
  then show ?thesis
    by (simp add: encrypt_cases Let_def QuoteJSONString_def split: prod.splits)
qed

section \<open>Format rejection\<close>

lemma xorCipher_Nil: "xorCipher [] key = []"
  using length_xorCipher [of "[]" key] by simp

lemma JSON_parse_Nil: "JSON_parse [] = Inl SyntaxError"
  by (simp add: JSON_parse_def)

lemma reads_getTimeSeed: "reads (snd (getTimeSeed this c)) = reads c + 1"
  by (simp add: getTimeSeed_def Date_now_def)

lemma reads_orTimeSeed:
  "reads c \<le> reads (snd (orTimeSeed this seed c))"
  "reads (snd (orTimeSeed this None c)) = reads c + 1"
  by (simp_all add: orTimeSeed_def reads_getTimeSeed split: option.splits)

lemma reads_generateTimeKey: "reads c \<le> reads (snd (generateTimeKey this seed c))"
proof -
  obtain s c1 where o: "orTimeSeed this seed c = (s, c1)" by (cases "orTimeSeed this seed c")
  with reads_orTimeSeed(1) [of c this seed] show ?thesis
    by (simp add: generateTimeKey_def)
qed

lemma attemptDecrypt_empty:
  "\<exists>c2. attemptDecrypt this [] seed c = (Return JNull, c2)
        \<and> reads (snd (orTimeSeed this seed c)) \<le> reads c2"
proof -
  obtain s c1 where o: "orTimeSeed this seed c = (s, c1)" by (cases "orTimeSeed this seed c")
  obtain k c2 where g: "generateTimeKey this (Some s) c1 = (k, c2)"
    by (cases "generateTimeKey this (Some s) c1")
  have a: "attemptDecrypt this [] seed c = (Return JNull, c2)"
    by (simp add: attemptDecrypt_def attemptDecrypt_try_def o g xorCipher_Nil JSON_parse_Nil)
  have "reads c1 \<le> reads c2" using reads_generateTimeKey [of c1 this "Some s"] by (simp add: g)
  with a o show ?thesis by simp
qed

lemma falsy_JNull [simp]: "falsy JNull"
  by (simp add: falsy_def)

lemma decrypt_retry_empty:
  "i \<le> 4 \<Longrightarrow> fst (decrypt_retry this [] i c) = Return JNull
     \<and> reads c + (4 - i) \<le> reads (snd (decrypt_retry this [] i c))"
proof (induction "4 - i" arbitrary: i c)
  case 0
  then have "i = 4" by simp
  then show ?case by (subst (1 2) decrypt_retry.simps) simp
next
  case (Suc n)
  then have i: "i \<le> 3" by simp
  obtain seed c1 where g: "getTimeSeed this c = (seed, c1)" by (cases "getTimeSeed this c")
  then have r1: "reads c1 = reads c + 1" using reads_getTimeSeed [of this c] by simp
  obtain c2 where a: "attemptDecrypt this [] (Some (seed - int i)) c1 = (Return JNull, c2)"
    and r: "reads (snd (orTimeSeed this (Some (seed - int i)) c1)) \<le> reads c2"
    using attemptDecrypt_empty by blast
  have r2: "reads c1 \<le> reads c2"
    using r reads_orTimeSeed(1) [of c1 this "Some (seed - int i)"] by simp
  have step: "decrypt_retry this [] i c = decrypt_retry this [] (i + 1) c2"
    using i by (subst decrypt_retry.simps) (simp add: g a)
  have "fst (decrypt_retry this [] (i + 1) c2) = Return JNull
     \<and> reads c2 + (4 - (i + 1)) \<le> reads (snd (decrypt_retry this [] (i + 1) c2))"
    using Suc.hyps(2) i by (intro Suc.hyps(1)) simp_all
  moreover have "reads c + (4 - i) \<le> reads c2 + (4 - (i + 1))"
    using r1 r2 i by linarith
  ultimately show ?case unfolding step by simp
qed

lemma decrypt_bad_prefix:
  "decrypt this (js ''not-nfc-data'') c
     = (Throw (Error ''Decryption failed: Invalid encrypted format''), c)"
  by (simp add: decrypt_def decrypt_try_def startsWith_def js_def rethrow_def)

lemma atob_Nil: "atob [] = Inr []"
  by (simp add: atob_def stripPadding_def)

lemma decrypt_prefix_only:
  "fst (decrypt this (js ''NFC_'') c)
     = Throw (Error ''Decryption failed: Decryption failed - invalid key or expired data'')"
  "reads c + 4 \<le> reads (snd (decrypt this (js ''NFC_'') c))"
proof -
  obtain c1 where a: "attemptDecrypt this [] None c = (Return JNull, c1)"
    and r: "reads (snd (orTimeSeed this None c)) \<le> reads c1"
    using attemptDecrypt_empty by blast
  have r1: "reads c + 1 \<le> reads c1"
    using r by (simp add: reads_orTimeSeed(2))
  obtain c2 where l: "decrypt_retry this [] (Suc 0) c1 = (Return JNull, c2)"
    using decrypt_retry_empty [of "Suc 0" this c1]
    by (cases "decrypt_retry this [] (Suc 0) c1") simp
  then have r2: "reads c1 + 3 \<le> reads c2"
    using decrypt_retry_empty [of "Suc 0" this c1] by simp
  have d: "decrypt this (js ''NFC_'') c
      = (Throw (Error ''Decryption failed: Decryption failed - invalid key or expired data''), c2)"
    by (simp add: decrypt_def decrypt_try_def startsWith_def js_def atob_Nil a l rethrow_def)
  show "fst (decrypt this (js ''NFC_'') c)
     = Throw (Error ''Decryption failed: Decryption failed - invalid key or expired data'')"
    by (simp add: d)
  show "reads c + 4 \<le> reads (snd (decrypt this (js ''NFC_'') c))"
    using r1 r2 by (simp add: d)
qed

text \<open>
  C3 (as amended). \<^verbatim>\<open>decrypt("not-nfc-data")\<close> throws the format error at once: whatever
  the master key, and with the clock left unread, so before any time key or
  single-window attempt. \<^verbatim>\<open>decrypt("NFC_")\<close> has the prefix and passes that test: its
  empty ciphertext is tried at the current window and the three before it (at least
  four clock reads), and the call throws the exhausted-retry error.
\<close>

theorem decrypt_format_rejection:
  "decrypt this (js ''not-nfc-data'') c
     = (Throw (Error ''Decryption failed: Invalid encrypted format''), c)
   \<and> fst (decrypt this (js ''NFC_'') c)
     = Throw (Error ''Decryption failed: Decryption failed - invalid key or expired data'')
   \<and> reads c + 4 \<le> reads (snd (decrypt this (js ''NFC_'') c))"
  using decrypt_bad_prefix decrypt_prefix_only by blast

text \<open>
  C3 as stated fails on \<open>NFC_\<close>: the error is not the format error, and the clock has
  been read four times on the way.
\<close>

theorem decrypt_prefix_only_not_format_error:
  "fst (decrypt (new_CryptoEngine (js ''device'')) (js ''NFC_'')
          \<lparr>readings = \<lambda>i. 1700000000000, reads = 0\<rparr>)
     \<noteq> Throw (Error ''Decryption failed: Invalid encrypted format'')
   \<and> 4 \<le> reads (snd (decrypt (new_CryptoEngine (js ''device'')) (js ''NFC_'')
                       \<lparr>readings = \<lambda>i. 1700000000000, reads = 0\<rparr>))"
  using decrypt_prefix_only [where this = "new_CryptoEngine (js ''device'')"
      and c = "\<lparr>readings = \<lambda>i. 1700000000000, reads = 0\<rparr>"]
  by simp

section \<open>Envelopes\<close>

text \<open>
  A clock whose readings are time values of JavaScript (at most 8.64e15 in magnitude)
  other than 0, the instant of the epoch.
\<close>

definition clock_ok :: "clock \<Rightarrow> bool" where
  "clock_ok c = (\<forall>i. readings c i \<noteq> 0 \<and> \<bar>readings c i\<bar> \<le> 8640000000000000)"

lemma clock_ok_reads [simp]: "clock_ok (c\<lparr>reads := n\<rparr>) = clock_ok c"
  by (simp add: clock_ok_def)

text \<open>
  The value \<^verbatim>\<open>JSON.parse\<close> makes of the envelope of message \<open>m\<close> stamped \<open>t\<close>: its
  checksum is \<open>hash(m + t)\<close>, as \<^verbatim>\<open>encrypt\<close> computes it.
\<close>

definition envelopeOf :: "jsstring \<Rightarrow> int \<Rightarrow> json \<Rightarrow> json" where
  "envelopeOf m t sd =
     JObj [(js ''msg'', JStr m), (js ''ts'', JNum t), (js ''seed'', sd),
           (js ''checksum'', JStr (simpleHash (m @ toString 10 t)))]"

lemma getProp_envelopeOf:
  "getProp (envelopeOf m t sd) (js ''msg'') = Inr (Some (JStr m))"
  "getProp (envelopeOf m t sd) (js ''ts'') = Inr (Some (JNum t))"
  "getProp (envelopeOf m t sd) (js ''checksum'') = Inr (Some (JStr (simpleHash (m @ toString 10 t))))"
  by (simp_all add: envelopeOf_def js_def)

lemma simpleHash_not_Nil: "simpleHash s \<noteq> []"
  using length_simpleHash [of s] by auto

lemma validate_envelopeOf:
  assumes "m \<noteq> []" "t \<noteq> 0"
  shows "validate (envelopeOf m t sd) c =
           (if readings c (reads c) - t > 86400000
            then (Throw (Error ''Message expired''), c\<lparr>reads := reads c + 1\<rparr>)
            else (Return (JStr m), c\<lparr>reads := reads c + 1\<rparr>))"
  using assms
  by (simp add: validate_def getProp_envelopeOf simpleHash_not_Nil js_add_def Date_now_def)

lemma validate_envelopeOf_empty:
  "validate (envelopeOf [] t sd) c = (Return JNull, c)"
  by (simp add: validate_def getProp_envelopeOf)

lemma JSON_parse_envelopeOf:
  assumes "\<bar>t\<bar> \<le> 8640000000000000"
  shows "JSON_parse (JSON_stringify_envelope m t s (simpleHash (m @ toString 10 t)))
       = Inr (envelopeOf m t (numberValue (s < 0) (nat \<bar>s\<bar>) 0))"
proof -
  have "\<bar>t\<bar> \<le> 2 ^ 53" using assms by simp
  then show ?thesis
    by (simp add: JSON_parse_envelope envelopeOf_def numberValue_int)
qed

section \<open>Single attempts\<close>

text \<open>
  The cipher text \<^verbatim>\<open>encrypt\<close> makes of message \<open>m\<close> stamped \<open>t\<close>, with seed field \<open>s\<close>,
  under the key of window \<open>w\<close>.
\<close>

definition cipherOf :: "CryptoEngine \<Rightarrow> jsstring \<Rightarrow> int \<Rightarrow> int \<Rightarrow> int \<Rightarrow> jsstring" where
  "cipherOf this m t s w =
     xorCipher (JSON_stringify_envelope m t s (simpleHash (m @ toString 10 t))) (timeKeyOf this w)"

text \<open>The window whose key an attempt with this seed uses, when the clock is in window \<open>w\<close>.\<close>

definition keyWindow :: "int option \<Rightarrow> int \<Rightarrow> int" where
  "keyWindow seed w = (case seed of None \<Rightarrow> w | Some x \<Rightarrow> if x = 0 then w else x)"

lemma key_resolution:
  assumes "timeWindow this = 300000" "in_window w c"
  shows "\<exists>s c1 k. orTimeSeed this seed c = (s, c1)
           \<and> generateTimeKey this (Some s) c1
               = (timeKeyOf this (keyWindow seed w), c\<lparr>reads := reads c + k\<rparr>)"
proof -
  have r: "c = c\<lparr>reads := reads c + 0\<rparr>" by simp
  consider "seed = None \<or> seed = Some 0" | x where "seed = Some x" "x \<noteq> 0"
    by (cases seed) auto
  then show ?thesis
  proof cases
    case 1
    then have o: "orTimeSeed this seed c = (w, c\<lparr>reads := reads c + 1\<rparr>)"
      and kw: "keyWindow seed w = w"
      using orTimeSeed_window(1,2) [OF assms] by (auto simp: keyWindow_def)
    have "in_window w (c\<lparr>reads := reads c + 1\<rparr>)" using assms(2) by simp
    from generateTimeKey_window [OF assms(1) this] obtain k where
      "generateTimeKey this (Some w) (c\<lparr>reads := reads c + 1\<rparr>)
        = (timeKeyOf this w, c\<lparr>reads := reads c + 1 + k\<rparr>)"
      by auto
    with o kw show ?thesis by (metis add.assoc)
  next
    case 2
    then have "orTimeSeed this seed c = (x, c)" "keyWindow seed w = x"
      by (simp_all add: orTimeSeed_def keyWindow_def)
    moreover have "generateTimeKey this (Some x) c = (timeKeyOf this x, c\<lparr>reads := reads c + 0\<rparr>)"
      using 2 by (simp add: generateTimeKey_nonzero)
    ultimately show ?thesis by blast
  qed
qed

lemma frame_validate: "\<exists>n. snd (validate md c) = c\<lparr>reads := n\<rparr>"
proof -
  have r: "\<exists>n. c = c\<lparr>reads := n\<rparr>" by (rule exI [of _ "reads c"]) simp
  have r1: "\<exists>n. c\<lparr>reads := reads c + 1\<rparr> = c\<lparr>reads := n\<rparr>" by blast
  show ?thesis
    using r r1
    by (auto simp: validate_def Date_now_def Let_def
        split: sum.splits option.splits prod.splits if_splits)
qed

lemma attemptDecrypt_try_keyed:
  assumes "timeWindow this = 300000" "in_window w c"
  shows "\<exists>k. attemptDecrypt_try this enc seed c =
           (case JSON_parse (xorCipher enc (timeKeyOf this (keyWindow seed w))) of
              Inl e \<Rightarrow> (Throw e, c\<lparr>reads := reads c + k\<rparr>)
            | Inr messageData \<Rightarrow> validate messageData (c\<lparr>reads := reads c + k\<rparr>))"
proof -
  from key_resolution [OF assms, of seed] obtain s c1 k where
    "orTimeSeed this seed c = (s, c1)"
    "generateTimeKey this (Some s) c1 = (timeKeyOf this (keyWindow seed w), c\<lparr>reads := reads c + k\<rparr>)"
    by blast
  then have "attemptDecrypt_try this enc seed c =
           (case JSON_parse (xorCipher enc (timeKeyOf this (keyWindow seed w))) of
              Inl e \<Rightarrow> (Throw e, c\<lparr>reads := reads c + k\<rparr>)
            | Inr messageData \<Rightarrow> validate messageData (c\<lparr>reads := reads c + k\<rparr>))"
    by (simp add: attemptDecrypt_try_def)
  then show ?thesis ..
qed

lemma frame_attemptDecrypt:
  assumes "timeWindow this = 300000" "in_window w c"
  shows "\<exists>n. snd (attemptDecrypt this enc seed c) = c\<lparr>reads := n\<rparr>"
proof -
  from attemptDecrypt_try_keyed [OF assms, of enc seed] obtain k where
    t: "attemptDecrypt_try this enc seed c =
           (case JSON_parse (xorCipher enc (timeKeyOf this (keyWindow seed w))) of
              Inl e \<Rightarrow> (Throw e, c\<lparr>reads := reads c + k\<rparr>)
            | Inr messageData \<Rightarrow> validate messageData (c\<lparr>reads := reads c + k\<rparr>))"
    by blast
  have s: "snd (attemptDecrypt this enc seed c) = snd (attemptDecrypt_try this enc seed c)"
    by (simp add: attemptDecrypt_def split: prod.splits completion.splits)
  show ?thesis
  proof (cases "JSON_parse (xorCipher enc (timeKeyOf this (keyWindow seed w)))")
    case (Inl e)
    then show ?thesis unfolding s t by auto
  next
    case (Inr md)
    from frame_validate [of md "c\<lparr>reads := reads c + k\<rparr>"] obtain n where
      "snd (validate md (c\<lparr>reads := reads c + k\<rparr>)) = c\<lparr>reads := n\<rparr>" by auto
    then show ?thesis unfolding s t by (auto simp: Inr)
  qed
qed

text \<open>An attempt whose key does not give JSON text returns \<^verbatim>\<open>null\<close>.\<close>

lemma attemptDecrypt_parse_fails:
  assumes "timeWindow this = 300000" "in_window w c"
    and "JSON_parse (xorCipher enc (timeKeyOf this (keyWindow seed w))) = Inl e"
  shows "fst (attemptDecrypt this enc seed c) = Return JNull"
proof -
  from attemptDecrypt_try_keyed [OF assms(1,2), of enc seed] assms(3) obtain k where
    "attemptDecrypt_try this enc seed c = (Throw e, c\<lparr>reads := reads c + k\<rparr>)"
    by auto
  then show ?thesis by (simp add: attemptDecrypt_def)
qed

text \<open>An attempt with the key the envelope was encrypted under.\<close>

lemma attemptDecrypt_try_cipherOf:
  assumes "timeWindow this = 300000" "in_window w c" "keyWindow seed w = kw"
    and "\<bar>t\<bar> \<le> 8640000000000000"
  shows "\<exists>k. attemptDecrypt_try this (cipherOf this m t s kw) seed c =
           validate (envelopeOf m t (numberValue (s < 0) (nat \<bar>s\<bar>) 0)) (c\<lparr>reads := reads c + k\<rparr>)"
  using attemptDecrypt_try_keyed [OF assms(1,2), of "cipherOf this m t s kw" seed]
  by (simp add: assms(3) cipherOf_def xorCipher_twice JSON_parse_envelopeOf [OF assms(4)])

lemma attemptDecrypt_cipherOf_fresh:
  assumes "timeWindow this = 300000" "in_window w c" "keyWindow seed w = kw"
    and "\<bar>t\<bar> \<le> 8640000000000000" "m \<noteq> []" "t \<noteq> 0"
    and "\<forall>i. readings c i - t \<le> 86400000"
  shows "fst (attemptDecrypt this (cipherOf this m t s kw) seed c) = Return (JStr m)"
proof -
  from attemptDecrypt_try_cipherOf [OF assms(1-4), of m s] obtain k where
    "attemptDecrypt_try this (cipherOf this m t s kw) seed c =
       validate (envelopeOf m t (numberValue (s < 0) (nat \<bar>s\<bar>) 0)) (c\<lparr>reads := reads c + k\<rparr>)"
    by blast
  moreover have "\<not> readings c (reads c + k) - t > 86400000"
    using assms(7) by (simp add: not_less)
  ultimately show ?thesis
    by (simp add: attemptDecrypt_def validate_envelopeOf [OF assms(5,6)])
qed

lemma attemptDecrypt_cipherOf_expired:
  assumes "timeWindow this = 300000" "in_window w c" "keyWindow seed w = kw"
    and "\<bar>t\<bar> \<le> 8640000000000000" "m \<noteq> []" "t \<noteq> 0"
    and "\<forall>i. readings c i - t > 86400000"
  shows "fst (attemptDecrypt_try this (cipherOf this m t s kw) seed c) = Throw (Error ''Message expired'')"
    and "fst (attemptDecrypt this (cipherOf this m t s kw) seed c) = Return JNull"
proof -
  from attemptDecrypt_try_cipherOf [OF assms(1-4), of m s] obtain k where
    a: "attemptDecrypt_try this (cipherOf this m t s kw) seed c =
       validate (envelopeOf m t (numberValue (s < 0) (nat \<bar>s\<bar>) 0)) (c\<lparr>reads := reads c + k\<rparr>)"
    by blast
  have b: "readings c (reads c + k) - t > 86400000"
    using assms(7) by simp
  show "fst (attemptDecrypt_try this (cipherOf this m t s kw) seed c) = Throw (Error ''Message expired'')"
    using b by (simp add: a validate_envelopeOf [OF assms(5,6)])
  show "fst (attemptDecrypt this (cipherOf this m t s kw) seed c) = Return JNull"
    using b by (simp add: attemptDecrypt_def a validate_envelopeOf [OF assms(5,6)])
qed

lemma attemptDecrypt_cipherOf_empty:
  assumes "timeWindow this = 300000" "in_window w c" "keyWindow seed w = kw"
    and "\<bar>t\<bar> \<le> 8640000000000000"
  shows "fst (attemptDecrypt this (cipherOf this [] t s kw) seed c) = Return JNull"
proof -
  from attemptDecrypt_try_cipherOf [OF assms(1-4), of "[]" s] obtain k where
    "attemptDecrypt_try this (cipherOf this [] t s kw) seed c =
       validate (envelopeOf [] t (numberValue (s < 0) (nat \<bar>s\<bar>) 0)) (c\<lparr>reads := reads c + k\<rparr>)"
    by blast
  then show ?thesis
    by (simp add: attemptDecrypt_def validate_envelopeOf_empty)
qed

section \<open>The retry loop\<close>

text \<open>The seed of the \<open>j\<close>-th attempt of \<^verbatim>\<open>decrypt\<close>, with the clock in window \<open>w\<close>.\<close>

definition attemptSeed :: "int \<Rightarrow> nat \<Rightarrow> int option" where
  "attemptSeed w j = (if j = 0 then None else Some (w - int j))"

text \<open>
  What the \<open>j\<close>-th attempt gives, whenever it is made: at every number of reads of the same
  clock.
\<close>

definition attemptGives :: "CryptoEngine \<Rightarrow> jsstring \<Rightarrow> clock \<Rightarrow> int \<Rightarrow> nat \<Rightarrow> json completion \<Rightarrow> bool" where
  "attemptGives this enc c w j r =
     (\<forall>n. fst (attemptDecrypt this enc (attemptSeed w j) (c\<lparr>reads := n\<rparr>)) = r)"

lemma attemptGivesD:
  "attemptGives this enc c w j r \<Longrightarrow>
   fst (attemptDecrypt this enc (attemptSeed w j) (c\<lparr>reads := n\<rparr>)) = r"
  by (simp add: attemptGives_def)

lemma decrypt_retry_opens:
  assumes tw: "timeWindow this = 300000" and win: "in_window w c"
    and k: "k \<le> 3" and v: "\<not> falsy v"
    and nulls: "\<And>j. 1 \<le> j \<Longrightarrow> j < k \<Longrightarrow> attemptGives this enc c w j (Return JNull)"
    and opens: "attemptGives this enc c w k (Return v)"
  shows "1 \<le> i \<Longrightarrow> i \<le> k \<Longrightarrow> fst (decrypt_retry this enc i (c\<lparr>reads := n\<rparr>)) = Return v"
proof (induction "k - i" arbitrary: i n)
  case 0
  then have ik: "i = k" by simp
  have g: "getTimeSeed this (c\<lparr>reads := n\<rparr>) = (w, c\<lparr>reads := Suc n\<rparr>)"
    using getTimeSeed_window [OF tw, of w "c\<lparr>reads := n\<rparr>"] win by simp
  have s: "attemptSeed w i = Some (w - int i)" using 0 by (simp add: attemptSeed_def)
  obtain c2 where a: "attemptDecrypt this enc (Some (w - int i)) (c\<lparr>reads := Suc n\<rparr>) = (Return v, c2)"
    using attemptGivesD [OF opens, of "Suc n"] s ik
    by (cases "attemptDecrypt this enc (Some (w - int i)) (c\<lparr>reads := Suc n\<rparr>)") simp
  have "i \<le> 3" using k ik by simp
  then show ?case
    using v by (subst decrypt_retry.simps) (simp add: g a)
next
  case (Suc d)
  then have ik: "i < k" by simp
  have g: "getTimeSeed this (c\<lparr>reads := n\<rparr>) = (w, c\<lparr>reads := Suc n\<rparr>)"
    using getTimeSeed_window [OF tw, of w "c\<lparr>reads := n\<rparr>"] win by simp
  have s: "attemptSeed w i = Some (w - int i)" using Suc.prems by (simp add: attemptSeed_def)
  have "in_window w (c\<lparr>reads := Suc n\<rparr>)" using win by simp
  from frame_attemptDecrypt [OF tw this, of enc "Some (w - int i)"] obtain n' where
    f: "snd (attemptDecrypt this enc (Some (w - int i)) (c\<lparr>reads := Suc n\<rparr>)) = c\<lparr>reads := n'\<rparr>"
    by auto
  have "fst (attemptDecrypt this enc (Some (w - int i)) (c\<lparr>reads := Suc n\<rparr>)) = Return JNull"
    using attemptGivesD [OF nulls [OF Suc.prems(1) ik], of "Suc n"] s by simp
  with f have a: "attemptDecrypt this enc (Some (w - int i)) (c\<lparr>reads := Suc n\<rparr>)
      = (Return JNull, c\<lparr>reads := n'\<rparr>)"
    by (cases "attemptDecrypt this enc (Some (w - int i)) (c\<lparr>reads := Suc n\<rparr>)") simp
  have step: "decrypt_retry this enc i (c\<lparr>reads := n\<rparr>) = decrypt_retry this enc (i + 1) (c\<lparr>reads := n'\<rparr>)"
    using ik k by (subst decrypt_retry.simps) (simp add: g a)
  have "fst (decrypt_retry this enc (i + 1) (c\<lparr>reads := n'\<rparr>)) = Return v"
  proof (rule Suc.hyps(1))
    show "d = k - (i + 1)" using Suc.hyps(2) by simp
    show "1 \<le> i + 1" by simp
    show "i + 1 \<le> k" using ik by simp
  qed
  then show ?case unfolding step .
qed

lemma decrypt_retry_exhausted:
  assumes tw: "timeWindow this = 300000" and win: "in_window w c"
    and nulls: "\<And>j. 1 \<le> j \<Longrightarrow> j \<le> 3 \<Longrightarrow> attemptGives this enc c w j (Return JNull)"
  shows "1 \<le> i \<Longrightarrow> i \<le> 4 \<Longrightarrow> fst (decrypt_retry this enc i (c\<lparr>reads := n\<rparr>)) = Return JNull"
proof (induction "4 - i" arbitrary: i n)
  case 0
  then have "i = 4" by simp
  then show ?case by (subst decrypt_retry.simps) simp
next
  case (Suc d)
  then have i3: "i \<le> 3" by simp
  have g: "getTimeSeed this (c\<lparr>reads := n\<rparr>) = (w, c\<lparr>reads := Suc n\<rparr>)"
    using getTimeSeed_window [OF tw, of w "c\<lparr>reads := n\<rparr>"] win by simp
  have s: "attemptSeed w i = Some (w - int i)" using Suc.prems by (simp add: attemptSeed_def)
  have "in_window w (c\<lparr>reads := Suc n\<rparr>)" using win by simp
  from frame_attemptDecrypt [OF tw this, of enc "Some (w - int i)"] obtain n' where
    f: "snd (attemptDecrypt this enc (Some (w - int i)) (c\<lparr>reads := Suc n\<rparr>)) = c\<lparr>reads := n'\<rparr>"
    by auto
  have "fst (attemptDecrypt this enc (Some (w - int i)) (c\<lparr>reads := Suc n\<rparr>)) = Return JNull"
    using attemptGivesD [OF nulls [OF Suc.prems(1) i3], of "Suc n"] s by simp
  with f have a: "attemptDecrypt this enc (Some (w - int i)) (c\<lparr>reads := Suc n\<rparr>)
      = (Return JNull, c\<lparr>reads := n'\<rparr>)"
    by (cases "attemptDecrypt this enc (Some (w - int i)) (c\<lparr>reads := Suc n\<rparr>)") simp
  have step: "decrypt_retry this enc i (c\<lparr>reads := n\<rparr>) = decrypt_retry this enc (i + 1) (c\<lparr>reads := n'\<rparr>)"
    using i3 by (subst decrypt_retry.simps) (simp add: g a)
  have "fst (decrypt_retry this enc (i + 1) (c\<lparr>reads := n'\<rparr>)) = Return JNull"
  proof (rule Suc.hyps(1))
    show "d = 4 - (i + 1)" using Suc.hyps(2) by simp
    show "1 \<le> i + 1" by simp
    show "i + 1 \<le> 4" using i3 by simp
  qed
  then show ?case unfolding step .
qed

lemma decrypt_try_NFC:
  "decrypt_try this (js ''NFC_'' @ b) c =
     (case atob b of
        Inl e \<Rightarrow> (Throw e, c)
      | Inr encrypted \<Rightarrow>
          (case attemptDecrypt this encrypted None c of
             (Return decrypted, c1) \<Rightarrow>
               (case (if falsy decrypted then decrypt_retry this encrypted 1 c1
                      else (Return decrypted, c1)) of
                  (Return decrypted', c2) \<Rightarrow>
                    if falsy decrypted'
                    then (Throw (Error ''Decryption failed - invalid key or expired data''), c2)
                    else (Return decrypted', c2)
                | r \<Rightarrow> r)
           | r \<Rightarrow> r))"
  by (simp add: decrypt_try_def startsWith_def js_def)

text \<open>
  \<^verbatim>\<open>decrypt\<close> returns the message of the first attempt that succeeds, trying the current
  window and then up to three earlier ones.
\<close>

lemma decrypt_first_success:
  assumes tw: "timeWindow this = 300000" and win: "in_window w c"
    and atob: "atob b = Inr enc"
    and k: "k \<le> 3" and v: "\<not> falsy v"
    and nulls: "\<And>j. j < k \<Longrightarrow> attemptGives this enc c w j (Return JNull)"
    and opens: "attemptGives this enc c w k (Return v)"
  shows "fst (decrypt this (js ''NFC_'' @ b) c) = Return v"
proof -
  from frame_attemptDecrypt [OF tw win, of enc None] obtain n where
    f: "snd (attemptDecrypt this enc None c) = c\<lparr>reads := n\<rparr>" by auto
  show ?thesis
  proof (cases "k = 0")
    case True
    have "fst (attemptDecrypt this enc None c) = Return v"
      using attemptGivesD [OF opens, of "reads c"] True by (simp add: attemptSeed_def)
    with f have a: "attemptDecrypt this enc None c = (Return v, c\<lparr>reads := n\<rparr>)"
      by (cases "attemptDecrypt this enc None c") simp
    show ?thesis
      using v by (simp add: decrypt_def decrypt_try_NFC atob a)
  next
    case False
    then have k0: "0 < k" by simp
    have "fst (attemptDecrypt this enc None c) = Return JNull"
      using attemptGivesD [OF nulls [OF k0], of "reads c"] by (simp add: attemptSeed_def)
    with f have a: "attemptDecrypt this enc None c = (Return JNull, c\<lparr>reads := n\<rparr>)"
      by (cases "attemptDecrypt this enc None c") simp
    have "fst (decrypt_retry this enc 1 (c\<lparr>reads := n\<rparr>)) = Return v"
      using decrypt_retry_opens [OF tw win k v _ opens, of 1 n] nulls k0 by simp
    then obtain c2 where l: "decrypt_retry this enc (Suc 0) (c\<lparr>reads := n\<rparr>) = (Return v, c2)"
      by (cases "decrypt_retry this enc (Suc 0) (c\<lparr>reads := n\<rparr>)") simp
    show ?thesis
      using v by (simp add: decrypt_def decrypt_try_NFC atob a l)
  qed
qed

text \<open>When all four attempts fail, \<^verbatim>\<open>decrypt\<close> throws the exhausted-retry error.\<close>

lemma decrypt_all_fail:
  assumes tw: "timeWindow this = 300000" and win: "in_window w c"
    and atob: "atob b = Inr enc"
    and nulls: "\<And>j. j \<le> 3 \<Longrightarrow> attemptGives this enc c w j (Return JNull)"
  shows "fst (decrypt this (js ''NFC_'' @ b) c)
       = Throw (Error ''Decryption failed: Decryption failed - invalid key or expired data'')"
proof -
  from frame_attemptDecrypt [OF tw win, of enc None] obtain n where
    f: "snd (attemptDecrypt this enc None c) = c\<lparr>reads := n\<rparr>" by auto
  have "fst (attemptDecrypt this enc None c) = Return JNull"
    using attemptGivesD [OF nulls [of 0], of "reads c"] by (simp add: attemptSeed_def)
  with f have a: "attemptDecrypt this enc None c = (Return JNull, c\<lparr>reads := n\<rparr>)"
    by (cases "attemptDecrypt this enc None c") simp
  have "fst (decrypt_retry this enc 1 (c\<lparr>reads := n\<rparr>)) = Return JNull"
    using decrypt_retry_exhausted [OF tw win, of enc 1 n] nulls by simp
  then obtain c2 where l: "decrypt_retry this enc (Suc 0) (c\<lparr>reads := n\<rparr>) = (Return JNull, c2)"
    by (cases "decrypt_retry this enc (Suc 0) (c\<lparr>reads := n\<rparr>)") simp
  show ?thesis
    by (simp add: decrypt_def decrypt_try_NFC atob a l rethrow_def)
qed

section \<open>Payloads\<close>

text \<open>
  The payload \<^verbatim>\<open>encrypt\<close> makes of message \<open>m\<close> at instant \<open>t\<close> with time seed \<open>s\<close>, and
  what it means that the key of window \<open>w\<close> does not turn a cipher text into JSON text.
\<close>

definition sealed :: "CryptoEngine \<Rightarrow> jsstring \<Rightarrow> int \<Rightarrow> int \<Rightarrow> jsstring" where
  "sealed this m t s = js ''NFC_'' @ b64encode (map unat (cipherOf this m t s s))"

definition garbled :: "CryptoEngine \<Rightarrow> jsstring \<Rightarrow> int \<Rightarrow> bool" where
  "garbled this enc w = (JSON_parse (xorCipher enc (timeKeyOf this w)) = Inl SyntaxError)"

lemma encrypt_sealed:
  assumes tw: "timeWindow this = 300000" and win: "in_window w c"
    and m: "latin1 (quoteUnits m)"
  shows "\<exists>i n. encrypt this m None c = (Return (sealed this m (readings c i) w), c\<lparr>reads := n\<rparr>)"
proof -
  have o: "orTimeSeed this None c = (w, c\<lparr>reads := Suc (reads c)\<rparr>)"
    using orTimeSeed_window(1) [OF tw win] by simp
  have "in_window w (c\<lparr>reads := Suc (reads c)\<rparr>)" using win by simp
  from generateTimeKey_window [OF tw this] obtain k where
    g: "generateTimeKey this (Some w) (c\<lparr>reads := Suc (reads c)\<rparr>)
          = (timeKeyOf this w, c\<lparr>reads := Suc (reads c + k)\<rparr>)"
    by auto
  have "encrypt this m None c
      = (Return (sealed this m (readings c (Suc (reads c + k))) w),
         c\<lparr>reads := Suc (Suc (reads c + k))\<rparr>)"
    using m by (simp add: encrypt_cases o g Date_now_def sealed_def cipherOf_def)
  then show ?thesis by blast
qed

lemma encrypt_sealed_custom:
  assumes "s \<noteq> 0" "latin1 (quoteUnits m)"
  shows "encrypt this m (Some s) c
       = (Return (sealed this m (readings c (reads c)) s), c\<lparr>reads := reads c + 1\<rparr>)"
  using assms
  by (simp add: encrypt_cases orTimeSeed_def generateTimeKey_nonzero Date_now_def sealed_def
      cipherOf_def)

lemma atob_cipherOf:
  assumes "latin1 (quoteUnits m)"
  shows "atob (b64encode (map unat (cipherOf this m t s w))) = Inr (cipherOf this m t s w)"
proof -
  have "latin1 (cipherOf this m t s w)"
    using assms by (simp add: cipherOf_def latin1_xorCipher latin1_timeKeyOf latin1_envelope)
  then have "btoa (cipherOf this m t s w) = Inr (b64encode (map unat (cipherOf this m t s w)))"
    by (simp add: btoa_latin1)
  then show ?thesis by (rule atob_btoa)
qed

lemma keyWindow_attemptSeed:
  "3 < w \<Longrightarrow> j \<le> 3 \<Longrightarrow> keyWindow (attemptSeed w j) w = w - int j"
  by (simp add: keyWindow_def attemptSeed_def)

lemma attemptGives_garbled:
  assumes "timeWindow this = 300000" "in_window w c"
    and "garbled this enc (keyWindow (attemptSeed w j) w)"
  shows "attemptGives this enc c w j (Return JNull)"
  unfolding attemptGives_def
proof
  fix n
  have "in_window w (c\<lparr>reads := n\<rparr>)" using assms(2) by simp
  from attemptDecrypt_parse_fails [OF assms(1) this assms(3) [unfolded garbled_def]]
  show "fst (attemptDecrypt this enc (attemptSeed w j) (c\<lparr>reads := n\<rparr>)) = Return JNull" .
qed

lemma attemptGives_fresh:
  assumes "timeWindow this = 300000" "in_window w c" "keyWindow (attemptSeed w j) w = kw"
    and "\<bar>t\<bar> \<le> 8640000000000000" "m \<noteq> []" "t \<noteq> 0"
    and "\<forall>i. readings c i - t \<le> 86400000"
  shows "attemptGives this (cipherOf this m t s kw) c w j (Return (JStr m))"
  unfolding attemptGives_def
proof
  fix n
  have "in_window w (c\<lparr>reads := n\<rparr>)" using assms(2) by simp
  from attemptDecrypt_cipherOf_fresh [OF assms(1) this assms(3-6)] assms(7)
  show "fst (attemptDecrypt this (cipherOf this m t s kw) (attemptSeed w j) (c\<lparr>reads := n\<rparr>))
      = Return (JStr m)" by simp
qed

lemma attemptGives_expired:
  assumes "timeWindow this = 300000" "in_window w c" "keyWindow (attemptSeed w j) w = kw"
    and "\<bar>t\<bar> \<le> 8640000000000000" "m \<noteq> []" "t \<noteq> 0"
    and "\<forall>i. readings c i - t > 86400000"
  shows "attemptGives this (cipherOf this m t s kw) c w j (Return JNull)"
  unfolding attemptGives_def
proof
  fix n
  have "in_window w (c\<lparr>reads := n\<rparr>)" using assms(2) by simp
  from attemptDecrypt_cipherOf_expired(2) [OF assms(1) this assms(3-6)] assms(7)
  show "fst (attemptDecrypt this (cipherOf this m t s kw) (attemptSeed w j) (c\<lparr>reads := n\<rparr>))
      = Return JNull" by simp
qed

lemma validate_empty_msg:
  "validate (JObj [(js ''msg'', JStr []), (js ''ts'', x), (js ''seed'', y), (js ''checksum'', z)]) c
     = (Return JNull, c)"
  by (simp add: validate_def js_def)

lemma attemptDecrypt_empty_msg:
  assumes "timeWindow this = 300000" "in_window w c" "keyWindow seed w = kw"
  shows "fst (attemptDecrypt this (cipherOf this [] t s kw) seed c) = Return JNull"
proof -
  from attemptDecrypt_try_keyed [OF assms(1,2), of "cipherOf this [] t s kw" seed] obtain k where
    "attemptDecrypt_try this (cipherOf this [] t s kw) seed c =
       (case JSON_parse (xorCipher (cipherOf this [] t s kw) (timeKeyOf this kw)) of
          Inl e \<Rightarrow> (Throw e, c\<lparr>reads := reads c + k\<rparr>)
        | Inr messageData \<Rightarrow> validate messageData (c\<lparr>reads := reads c + k\<rparr>))"
    using assms(3) by auto
  then show ?thesis
    by (simp add: attemptDecrypt_def cipherOf_def xorCipher_twice JSON_parse_envelope
        validate_empty_msg)
qed

lemma attemptGives_empty:
  assumes "timeWindow this = 300000" "in_window w c" "keyWindow (attemptSeed w j) w = kw"
  shows "attemptGives this (cipherOf this [] t s kw) c w j (Return JNull)"
  unfolding attemptGives_def
proof
  fix n
  have "in_window w (c\<lparr>reads := n\<rparr>)" using assms(2) by simp
  from attemptDecrypt_empty_msg [OF assms(1) this assms(3)]
  show "fst (attemptDecrypt this (cipherOf this [] t s kw) (attemptSeed w j) (c\<lparr>reads := n\<rparr>))
      = Return JNull" .
qed

section \<open>The errors of \<^verbatim>\<open>decrypt\<close>\<close>

lemma attemptDecrypt_no_throw: "fst (attemptDecrypt this enc seed c) \<noteq> Throw e"
  by (simp add: attemptDecrypt_def split: prod.splits completion.splits)

lemma decrypt_retry_no_throw: "fst (decrypt_retry this enc i c) \<noteq> Throw e"
proof (induction "4 - i" arbitrary: i c)
  case 0
  then show ?case by (subst decrypt_retry.simps) simp
next
  case (Suc d)
  then have i: "i \<le> 3" by simp
  obtain seed c1 where g: "getTimeSeed this c = (seed, c1)" by (cases "getTimeSeed this c")
  obtain r c2 where a: "attemptDecrypt this enc (Some (seed - int i)) c1 = (r, c2)"
    by (cases "attemptDecrypt this enc (Some (seed - int i)) c1")
  have nt: "r \<noteq> Throw e" using attemptDecrypt_no_throw [of this enc "Some (seed - int i)" c1 e] a by simp
  have IH: "fst (decrypt_retry this enc (i + 1) c2) \<noteq> Throw e"
    by (rule Suc.hyps(1)) (use Suc.hyps(2) in simp)
  show ?case
    using i nt IH
    by (subst decrypt_retry.simps) (auto simp: g a split: completion.splits)
qed

lemma atob_error: "atob b = Inl e \<Longrightarrow> e = InvalidCharacterError"
  by (simp add: atob_def Let_def split: if_splits)

text \<open>
  The exceptions \<^verbatim>\<open>decrypt\<close> can throw: the format error, the error of \<^verbatim>\<open>atob\<close>, and the
  error after the last attempt.
\<close>

lemma decrypt_errors:
  assumes "fst (decrypt this p c) = Throw e"
  shows "e = Error ''Decryption failed: Invalid encrypted format''
       \<or> e = ErrorWithMessageOf ''Decryption failed: '' InvalidCharacterError
       \<or> e = Error ''Decryption failed: Decryption failed - invalid key or expired data''"
proof -
  obtain r c1 where t: "decrypt_try this p c = (r, c1)" by (cases "decrypt_try this p c")
  have "r = Throw (Error ''Invalid encrypted format'') \<or> r = Throw InvalidCharacterError
      \<or> r = Throw (Error ''Decryption failed - invalid key or expired data'')
      \<or> (\<forall>x. r \<noteq> Throw x)"
  proof (cases "startsWith p (js ''NFC_'')")
    case False
    then show ?thesis using t by (simp add: decrypt_try_def)
  next
    case True
    show ?thesis
    proof (cases "atob (drop 4 p)")
      case (Inl x)
      then show ?thesis using t True atob_error [OF Inl] by (auto simp: decrypt_try_def)
    next
      case (Inr enc)
      obtain r0 c0 where a: "attemptDecrypt this enc None c = (r0, c0)"
        by (cases "attemptDecrypt this enc None c")
      have nt0: "r0 \<noteq> Throw x" for x
        using attemptDecrypt_no_throw [of this enc None c x] a by simp
      obtain r1 c2 where l: "decrypt_retry this enc (Suc 0) c0 = (r1, c2)"
        by (cases "decrypt_retry this enc (Suc 0) c0")
      have nt1: "r1 \<noteq> Throw x" for x
        using decrypt_retry_no_throw [of this enc "Suc 0" c0 x] l by simp
      show ?thesis
        using t True nt0 nt1
        by (auto simp: decrypt_try_def Inr a l split: completion.splits if_splits)
    qed
  qed
  with assms t show ?thesis
    by (auto simp: decrypt_def rethrow_def split: completion.splits)
qed

lemma decrypt_never_expired:
  "fst (decrypt this p c) \<noteq> Throw (Error ''Decryption failed: Message expired'')"
  using decrypt_errors [of this p c "Error ''Decryption failed: Message expired''"] by auto

lemma decrypt_returns_truthy: "fst (decrypt this p c) = Return v \<Longrightarrow> \<not> falsy v"
  by (auto simp: decrypt_def decrypt_try_def Let_def
      split: prod.splits completion.splits sum.splits if_splits)

section \<open>The key of another window\<close>

text \<open>A code unit with which no JSON token and no JSON white space starts.\<close>

definition startsNoToken :: "16 word \<Rightarrow> bool" where
  "startsNoToken u =
     (\<not> isJsonWhitespace u \<and> u \<noteq> 0x7B \<and> u \<noteq> 0x7D \<and> u \<noteq> 0x5B \<and> u \<noteq> 0x5D \<and> u \<noteq> 0x3A
      \<and> u \<noteq> 0x2C \<and> u \<noteq> 0x22 \<and> u \<noteq> 0x2D \<and> \<not> isDigit u \<and> u \<noteq> 0x74 \<and> u \<noteq> 0x66 \<and> u \<noteq> 0x6E)"

lemma tokenize_startsNoToken: "startsNoToken u \<Longrightarrow> tokenize (u # r) = None"
  by (simp add: startsNoToken_def tokenize.simps(2) js_def)

lemma tokenize_msg_key:
  "tokenize (0x22 # 0x6D # 0x73 # 0x67 # 0x22 # rest) = tok (TString [0x6D, 0x73, 0x67]) (tokenize rest)"
  by (subst tokenize.simps(2)) (simp add: isJsonWhitespace_def push_def)

lemma tokenize_msg_prefix:
  "startsNoToken u \<Longrightarrow> tokenize ([0x7B, 0x22, 0x6D, 0x73, 0x67, 0x22, 0x3A] @ u # r) = None"
  by (simp add: tokenize_punct tokenize_msg_key tok_def tokenize_startsNoToken)

lemma take_xorCipher:
  "length key \<le> length data \<Longrightarrow>
   take (length key) (xorCipher data key) = map2 (XOR) (take (length key) data) key"
  by (simp add: xorCipher_map2 expandKey_blocks take_map take_zip min_def)

lemma take_8_envelope:
  "take 8 (JSON_stringify_envelope m t s chk) = [0x7B, 0x22, 0x6D, 0x73, 0x67, 0x22, 0x3A, 0x22]"
  by (simp add: JSON_stringify_envelope_def QuoteJSONString_def js_def escapeUnit_def
      isLeadingSurrogate_def isTrailingSurrogate_def)

lemma length_envelope_ge: "8 \<le> length (JSON_stringify_envelope m t s chk)"
  by (simp add: JSON_stringify_envelope_def QuoteJSONString_def js_def)

text \<open>
  Two keys that differ in their last code unit only: the text the second makes of what
  the first encrypted is the envelope up to the colon after \<open>"msg"\<close>, then the opening
  quote of the message changed by the difference of the keys.
\<close>

lemma map2_xor_snoc:
  "length xs = length ks \<Longrightarrow>
   map2 (XOR) (map2 (XOR) (xs @ [x]) (ks @ [a])) (ks @ [a'])
     = map2 (XOR) (map2 (XOR) xs ks) ks @ [x XOR a XOR (a' :: 16 word)]"
  by (simp add: xor.assoc)

lemma other_key_text:
  assumes "length pre = 7"
  shows "\<exists>r. xorCipher (xorCipher (JSON_stringify_envelope m t s chk) (pre @ [a])) (pre @ [a'])
           = [0x7B, 0x22, 0x6D, 0x73, 0x67, 0x22, 0x3A] @ (0x22 XOR a XOR a') # r"
proof -
  let ?P = "JSON_stringify_envelope m t s chk"
  let ?D = "xorCipher (xorCipher ?P (pre @ [a])) (pre @ [a'])"
  have l: "length (pre @ [a]) = 8" "length (pre @ [a']) = 8" using assms by simp_all
  have "take 8 (xorCipher ?P (pre @ [a])) = map2 (XOR) (take 8 ?P) (pre @ [a])"
    using take_xorCipher [of "pre @ [a]" ?P] length_envelope_ge [of m t s chk] l by simp
  moreover have "take 8 ?D = map2 (XOR) (take 8 (xorCipher ?P (pre @ [a]))) (pre @ [a'])"
    using take_xorCipher [of "pre @ [a']" "xorCipher ?P (pre @ [a])"]
      length_envelope_ge [of m t s chk] l by (simp add: length_xorCipher)
  ultimately have t8: "take 8 ?D
      = map2 (XOR) (map2 (XOR) [0x7B, 0x22, 0x6D, 0x73, 0x67, 0x22, 0x3A, 0x22] (pre @ [a])) (pre @ [a'])"
    by (simp add: take_8_envelope)
  have p8: "[0x7B, 0x22, 0x6D, 0x73, 0x67, 0x22, 0x3A, 0x22]
      = [0x7B, 0x22, 0x6D, 0x73, 0x67, 0x22, 0x3A] @ [0x22 :: 16 word]" by simp
  have "take 8 ?D
      = map2 (XOR) (map2 (XOR) [0x7B, 0x22, 0x6D, 0x73, 0x67, 0x22, 0x3A] pre) pre @ [0x22 XOR a XOR a']"
    unfolding t8 p8 by (rule map2_xor_snoc) (simp add: assms)
  also have "map2 (XOR) (map2 (XOR) [0x7B, 0x22, 0x6D, 0x73, 0x67, 0x22, 0x3A] pre) pre
      = [0x7B, 0x22, 0x6D, 0x73, 0x67, 0x22, 0x3A]"
    using assms by (intro map2_xor_twice) simp
  finally have "take 8 ?D = [0x7B, 0x22, 0x6D, 0x73, 0x67, 0x22, 0x3A] @ [0x22 XOR a XOR a']" .
  then have "?D = ([0x7B, 0x22, 0x6D, 0x73, 0x67, 0x22, 0x3A] @ [0x22 XOR a XOR a']) @ drop 8 ?D"
    using append_take_drop_id [of 8 ?D] by simp
  then show ?thesis by auto
qed

lemma garbled_other_key:
  assumes "timeKeyOf this w = pre @ [a]" "timeKeyOf this w' = pre @ [a']"
    and "startsNoToken (0x22 XOR a XOR a')"
  shows "garbled this (cipherOf this m t s w) w'"
proof -
  have "length (timeKeyOf this w) = 8" by (simp add: timeKeyOf_def length_simpleHash)
  then have "length pre = 7" using assms(1) by simp
  from other_key_text [OF this, of m t s "simpleHash (m @ toString 10 t)" a a'] obtain r where
    "xorCipher (cipherOf this m t s w) (timeKeyOf this w')
       = [0x7B, 0x22, 0x6D, 0x73, 0x67, 0x22, 0x3A] @ (0x22 XOR a XOR a') # r"
    by (auto simp: cipherOf_def assms(1,2))
  then show ?thesis
    using tokenize_msg_prefix [OF assms(3), of r] by (simp add: garbled_def JSON_parse_def)
qed

section \<open>An engine and its keys around window 5866667\<close>

lemma masterKey_device: "masterKey (new_CryptoEngine (js ''device'')) = js ''5b0a8fe8''"
  apply (simp add: new_CryptoEngine_def generateMasterKey_def secret_def)
  apply (simp add: hash_eval str_eval)
  done

lemma timeKeyOf_device:
  "timeKeyOf (new_CryptoEngine (js ''device'')) 5866667 = js ''2a0cd23'' @ [0x35]"
  "timeKeyOf (new_CryptoEngine (js ''device'')) 5866666 = js ''2a0cd23'' @ [0x34]"
  "timeKeyOf (new_CryptoEngine (js ''device'')) 5866665 = js ''2a0cd23'' @ [0x33]"
  "timeKeyOf (new_CryptoEngine (js ''device'')) 5866664 = js ''2a0cd23'' @ [0x32]"
  by (simp_all add: timeKeyOf_def masterKey_device) (simp_all add: hash_eval str_eval)

lemma timeKeyOf_device_63:
  "timeKeyOf (new_CryptoEngine (js ''device'')) 5866663 = js ''2a0cd23'' @ [0x31]"
  by (simp add: timeKeyOf_def masterKey_device) (simp add: hash_eval str_eval)

lemma startsNoToken_simps:
  "startsNoToken 0x23" "startsNoToken 0x24" "startsNoToken 0x25" "startsNoToken 0x27"
  by (simp_all add: startsNoToken_def isJsonWhitespace_def isDigit_def)

lemma garbled_device:
  "garbled (new_CryptoEngine (js ''device'')) (cipherOf (new_CryptoEngine (js ''device'')) m t s 5866667) 5866666"
  "garbled (new_CryptoEngine (js ''device'')) (cipherOf (new_CryptoEngine (js ''device'')) m t s 5866667) 5866665"
  "garbled (new_CryptoEngine (js ''device'')) (cipherOf (new_CryptoEngine (js ''device'')) m t s 5866667) 5866664"
  "garbled (new_CryptoEngine (js ''device'')) (cipherOf (new_CryptoEngine (js ''device'')) m t s 5866666) 5866667"
  "garbled (new_CryptoEngine (js ''device'')) (cipherOf (new_CryptoEngine (js ''device'')) m t s 5866666) 5866665"
  "garbled (new_CryptoEngine (js ''device'')) (cipherOf (new_CryptoEngine (js ''device'')) m t s 5866666) 5866664"
  "garbled (new_CryptoEngine (js ''device'')) (cipherOf (new_CryptoEngine (js ''device'')) m t s 5866666) 5866663"
  "garbled (new_CryptoEngine (js ''device'')) (cipherOf (new_CryptoEngine (js ''device'')) m t s 5866665) 5866667"
  "garbled (new_CryptoEngine (js ''device'')) (cipherOf (new_CryptoEngine (js ''device'')) m t s 5866665) 5866666"
          apply (rule garbled_other_key [OF timeKeyOf_device(1) timeKeyOf_device(2)], simp add: startsNoToken_simps)
         apply (rule garbled_other_key [OF timeKeyOf_device(1) timeKeyOf_device(3)], simp add: startsNoToken_simps)
        apply (rule garbled_other_key [OF timeKeyOf_device(1) timeKeyOf_device(4)], simp add: startsNoToken_simps)
       apply (rule garbled_other_key [OF timeKeyOf_device(2) timeKeyOf_device(1)], simp add: startsNoToken_simps)
      apply (rule garbled_other_key [OF timeKeyOf_device(2) timeKeyOf_device(3)], simp add: startsNoToken_simps)
     apply (rule garbled_other_key [OF timeKeyOf_device(2) timeKeyOf_device(4)], simp add: startsNoToken_simps)
    apply (rule garbled_other_key [OF timeKeyOf_device(2) timeKeyOf_device_63], simp add: startsNoToken_simps)
   apply (rule garbled_other_key [OF timeKeyOf_device(3) timeKeyOf_device(1)], simp add: startsNoToken_simps)
  apply (rule garbled_other_key [OF timeKeyOf_device(3) timeKeyOf_device(2)], simp add: startsNoToken_simps)
  done


section \<open>Accepted and rejected payloads\<close>

lemma falsy_JStr [simp]: "falsy (JStr m) = (m = [])"
  by (simp add: falsy_def)

lemma same_window_age:
  fixes a b :: int
  assumes "a div 300000 = w" "b div 300000 = w - int k" "k \<le> 3"
  shows "a - b \<le> 86400000"
proof -
  have a: "a = 300000 * w + a mod 300000" using assms(1) by (metis mult_div_mod_eq)
  have b: "b = 300000 * (w - int k) + b mod 300000" using assms(2) by (metis mult_div_mod_eq)
  have "a mod 300000 < 300000" "0 \<le> b mod 300000" by simp_all
  moreover have "a - b = 300000 * int k + a mod 300000 - b mod 300000"
    using a b by (simp add: algebra_simps)
  moreover have "int k \<le> 3" using assms(3) by simp
  ultimately show ?thesis by linarith
qed

text \<open>
  A payload whose own attempt returns \<^verbatim>\<open>null\<close> and which the keys of the other three
  windows do not decode: \<^verbatim>\<open>decrypt\<close> throws the error of the exhausted retries.
\<close>

lemma decrypt_rejected:
  assumes tw: "timeWindow this = 300000" and win: "in_window w c" and w: "3 < w" and k: "k \<le> 3"
    and m: "latin1 (quoteUnits m)"
    and own: "attemptGives this (cipherOf this m t s (w - int k)) c w k (Return JNull)"
    and others: "\<And>j. j \<le> 3 \<Longrightarrow> j \<noteq> k \<Longrightarrow> garbled this (cipherOf this m t s (w - int k)) (w - int j)"
  shows "fst (decrypt this (js ''NFC_'' @ b64encode (map unat (cipherOf this m t s (w - int k)))) c)
       = Throw (Error ''Decryption failed: Decryption failed - invalid key or expired data'')"
proof (rule decrypt_all_fail [OF tw win atob_cipherOf [OF m]])
  fix j :: nat
  assume j: "j \<le> 3"
  show "attemptGives this (cipherOf this m t s (w - int k)) c w j (Return JNull)"
  proof (cases "j = k")
    case True
    then show ?thesis using own by simp
  next
    case False
    have "garbled this (cipherOf this m t s (w - int k)) (keyWindow (attemptSeed w j) w)"
      using others [OF j False] by (simp add: keyWindow_attemptSeed [OF w j])
    then show ?thesis by (rule attemptGives_garbled [OF tw win])
  qed
qed



section \<open>Round trip\<close>

text \<open>
  C1 (as amended). For every device fingerprint and every non-empty message whose JSON
  text has no code unit above 255, with a clock that stays in one 5-minute window and
  reads time values other than 0: \<^verbatim>\<open>encrypt(m)\<close> returns a payload, and \<^verbatim>\<open>decrypt\<close> of
  it, called on the clock as \<^verbatim>\<open>encrypt\<close> left it, returns \<open>m\<close>.
\<close>

theorem round_trip_same_window:
  assumes "m \<noteq> []" and "latin1 (quoteUnits m)" and "in_window w c" and "clock_ok c"
  shows "\<exists>payload c1. encrypt (new_CryptoEngine fp) m None c = (Return payload, c1)
           \<and> fst (decrypt (new_CryptoEngine fp) payload c1) = Return (JStr m)"
proof -
  let ?E = "new_CryptoEngine fp"
  have tw: "timeWindow ?E = 300000" by (simp add: new_CryptoEngine_def)
  from encrypt_sealed [OF tw assms(3,2)] obtain i n where
    e: "encrypt ?E m None c = (Return (sealed ?E m (readings c i) w), c\<lparr>reads := n\<rparr>)"
    by blast
  let ?t = "readings c i"
  have win: "in_window w (c\<lparr>reads := n\<rparr>)" using assms(3) by simp
  have t: "?t \<noteq> 0" "\<bar>?t\<bar> \<le> 8640000000000000" using assms(4) by (simp_all add: clock_ok_def)
  have age: "\<forall>i'. readings (c\<lparr>reads := n\<rparr>) i' - ?t \<le> 86400000"
  proof
    fix i'
    have "readings c i' div 300000 = w" "?t div 300000 = w - int 0"
      using assms(3) by (simp_all add: in_window_def)
    from same_window_age [OF this] show "readings (c\<lparr>reads := n\<rparr>) i' - ?t \<le> 86400000" by simp
  qed
  have kw: "keyWindow (attemptSeed w 0) w = w" by (simp add: keyWindow_def attemptSeed_def)
  have "fst (decrypt ?E (js ''NFC_'' @ b64encode (map unat (cipherOf ?E m ?t w w))) (c\<lparr>reads := n\<rparr>))
      = Return (JStr m)"
  proof (rule decrypt_first_success [OF tw win atob_cipherOf [OF assms(2)], of 0])
    show "\<not> falsy (JStr m)" using assms(1) by simp
    show "attemptGives ?E (cipherOf ?E m ?t w w) (c\<lparr>reads := n\<rparr>) w 0 (Return (JStr m))"
      by (rule attemptGives_fresh [OF tw win kw t(2) assms(1) t(1) age])
  qed simp_all
  with e show ?thesis by (simp add: sealed_def)
qed

theorem round_trip_same_window_witness:
  "\<exists>payload c1.
     encrypt (new_CryptoEngine (js ''device'')) (js ''hello'') None
         \<lparr>readings = \<lambda>i. 1760000100000, reads = 0\<rparr> = (Return payload, c1)
     \<and> fst (decrypt (new_CryptoEngine (js ''device'')) payload c1) = Return (JStr (js ''hello''))"
proof (rule round_trip_same_window [of _ 5866667])
  show "js ''hello'' \<noteq> []" by (simp add: js_def)
  show "latin1 (quoteUnits (js ''hello''))"
    by (rule latin1_quoteUnits) (simp add: js_def)
  show "in_window 5866667 \<lparr>readings = \<lambda>i. 1760000100000, reads = 0\<rparr>"
    by (simp add: in_window_def)
  show "clock_ok \<lparr>readings = \<lambda>i. 1760000100000, reads = 0\<rparr>"
    by (simp add: clock_ok_def)
qed

text \<open>
  C1 as stated fails on the empty message: \<^verbatim>\<open>encrypt("")\<close> returns a payload and
  \<^verbatim>\<open>decrypt\<close> of it, in the same window, throws. It fails on the euro sign (U+20AC)
  too, a message whose JSON text has a code unit above 255: \<^verbatim>\<open>encrypt\<close> throws.
\<close>

theorem round_trip_fails_on_empty_message:
  "(\<exists>payload c1.
      encrypt (new_CryptoEngine (js ''device'')) [] None
          \<lparr>readings = \<lambda>i. 1759999800000, reads = 0\<rparr> = (Return payload, c1)
      \<and> fst (decrypt (new_CryptoEngine (js ''device'')) payload c1)
        = Throw (Error ''Decryption failed: Decryption failed - invalid key or expired data''))
   \<and> fst (encrypt (new_CryptoEngine (js ''device'')) [0x20AC] None
            \<lparr>readings = \<lambda>i. 1759999800000, reads = 0\<rparr>)
       = Throw (ErrorWithMessageOf ''Encryption failed: '' InvalidCharacterError)"
proof -
  let ?E = "new_CryptoEngine (js ''device'')"
  let ?c = "\<lparr>readings = \<lambda>i. 1759999800000, reads = 0\<rparr>"
  have tw: "timeWindow ?E = 300000" by (simp add: new_CryptoEngine_def)
  have win: "in_window 5866666 ?c" by (simp add: in_window_def)
  have q: "latin1 (quoteUnits [])" by simp
  from encrypt_sealed [OF tw win q] obtain i n where
    e: "encrypt ?E [] None ?c = (Return (sealed ?E [] (readings ?c i) 5866666), ?c\<lparr>reads := n\<rparr>)"
    by blast
  have win': "in_window 5866666 (?c\<lparr>reads := n\<rparr>)" by (simp add: in_window_def)
  have "fst (decrypt ?E (js ''NFC_'' @ b64encode (map unat
              (cipherOf ?E [] (readings ?c i) 5866666 (5866666 - int 0)))) (?c\<lparr>reads := n\<rparr>))
      = Throw (Error ''Decryption failed: Decryption failed - invalid key or expired data'')"
  proof (rule decrypt_rejected [OF tw win' _ _ q])
    show "(3::int) < 5866666" by simp
    show "0 \<le> (3::nat)" by simp
    show "attemptGives ?E (cipherOf ?E [] (readings ?c i) 5866666 (5866666 - int 0))
            (?c\<lparr>reads := n\<rparr>) 5866666 0 (Return JNull)"
      by (rule attemptGives_empty [OF tw win']) (simp add: keyWindow_def attemptSeed_def)
  next
    fix j :: nat
    assume "j \<le> 3" "j \<noteq> 0"
    then have "j = 1 \<or> j = 2 \<or> j = 3" by arith
    then show "garbled ?E (cipherOf ?E [] (readings ?c i) 5866666 (5866666 - int 0)) (5866666 - int j)"
      by (auto simp: garbled_device)
  qed
  with e have empty: "\<exists>payload c1. encrypt ?E [] None ?c = (Return payload, c1)
      \<and> fst (decrypt ?E payload c1)
        = Throw (Error ''Decryption failed: Decryption failed - invalid key or expired data'')"
    by (simp add: sealed_def)
  have "escapeUnit 0x20AC = [0x20AC]"
    by (simp add: escapeUnit_def isLeadingSurrogate_def isTrailingSurrogate_def)
  then have "fst (encrypt ?E [0x20AC] None ?c)
      = Throw (ErrorWithMessageOf ''Encryption failed: '' InvalidCharacterError)"
    by (simp add: encrypt_cases Let_def split: prod.splits)
  with empty show ?thesis by blast
qed

section \<open>Falsy messages\<close>



section \<open>Expired messages\<close>

text \<open>
  C2, which the code does not meet. Take a payload of a non-empty message stamped \<open>t\<close>,
  encrypted with the seed \<open>w - k\<close> of one of the four windows \<^verbatim>\<open>decrypt\<close> tries, and a
  clock in window \<open>w\<close> that is more than 24 hours past \<open>t\<close>; let the keys of the other
  three windows not turn the cipher text into JSON text. The body of the attempt at
  window \<open>w - k\<close> throws \<open>Message expired\<close>, inside the \<^verbatim>\<open>try\<close> whose \<^verbatim>\<open>catch\<close>
  returns \<^verbatim>\<open>null\<close>: the attempt returns \<^verbatim>\<open>null\<close>, the loop goes on, and \<^verbatim>\<open>decrypt\<close>
  throws the error of the exhausted retries. On no payload and no clock does
  \<^verbatim>\<open>decrypt\<close> throw an error whose message is that of the expiry.
\<close>

theorem expired_message_error_swallowed:
  assumes "timeWindow this = 300000" and "in_window w c" and "3 < w" and "k \<le> 3"
    and "m \<noteq> []" and "latin1 (quoteUnits m)" and "t \<noteq> 0" and "\<bar>t\<bar> \<le> 8640000000000000"
    and "\<forall>i. readings c i - t > 86400000"
    and "\<forall>j\<in>{0, 1, 2, 3}. j \<noteq> k \<longrightarrow> garbled this (cipherOf this m t (w - int k) (w - int k)) (w - int j)"
  shows "fst (attemptDecrypt_try this (cipherOf this m t (w - int k) (w - int k)) (attemptSeed w k) c)
           = Throw (Error ''Message expired'')
       \<and> fst (attemptDecrypt this (cipherOf this m t (w - int k) (w - int k)) (attemptSeed w k) c)
           = Return JNull
       \<and> fst (decrypt this (sealed this m t (w - int k)) c)
           = Throw (Error ''Decryption failed: Decryption failed - invalid key or expired data'')
       \<and> (\<forall>p c'. fst (decrypt this p c') \<noteq> Throw (Error ''Decryption failed: Message expired''))"
proof (intro conjI allI)
  note kw = keyWindow_attemptSeed [OF assms(3,4)]
  show "fst (attemptDecrypt_try this (cipherOf this m t (w - int k) (w - int k)) (attemptSeed w k) c)
           = Throw (Error ''Message expired'')"
    by (rule attemptDecrypt_cipherOf_expired(1) [OF assms(1,2) kw assms(8,5,7,9)])
  show "fst (attemptDecrypt this (cipherOf this m t (w - int k) (w - int k)) (attemptSeed w k) c)
           = Return JNull"
    by (rule attemptDecrypt_cipherOf_expired(2) [OF assms(1,2) kw assms(8,5,7,9)])
  have "fst (decrypt this (js ''NFC_'' @ b64encode (map unat (cipherOf this m t (w - int k) (w - int k)))) c)
      = Throw (Error ''Decryption failed: Decryption failed - invalid key or expired data'')"
  proof (rule decrypt_rejected [OF assms(1,2,3,4,6)])
    show "attemptGives this (cipherOf this m t (w - int k) (w - int k)) c w k (Return JNull)"
      by (rule attemptGives_expired [OF assms(1,2) kw assms(8,5,7,9)])
  next
    fix j :: nat
    assume "j \<le> 3" "j \<noteq> k"
    moreover from \<open>j \<le> 3\<close> have "j = 0 \<or> j = 1 \<or> j = 2 \<or> j = 3" by arith
    ultimately show "garbled this (cipherOf this m t (w - int k) (w - int k)) (w - int j)"
      using assms(10) by auto
  qed
  then show "fst (decrypt this (sealed this m t (w - int k)) c)
           = Throw (Error ''Decryption failed: Decryption failed - invalid key or expired data'')"
    by (simp add: sealed_def)
next
  fix p c'
  show "fst (decrypt this p c') \<noteq> Throw (Error ''Decryption failed: Message expired'')"
    by (rule decrypt_never_expired)
qed

theorem expired_message_error_swallowed_witness:
  "encrypt (new_CryptoEngine (js ''device'')) (js ''hello'') (Some 5866667)
       \<lparr>readings = \<lambda>i. 1759827300000, reads = 0\<rparr>
     = (Return (sealed (new_CryptoEngine (js ''device'')) (js ''hello'') 1759827300000 5866667),
        \<lparr>readings = \<lambda>i. 1759827300000, reads = 1\<rparr>)
   \<and> fst (attemptDecrypt_try (new_CryptoEngine (js ''device''))
            (cipherOf (new_CryptoEngine (js ''device'')) (js ''hello'') 1759827300000 5866667 5866667)
            None \<lparr>readings = \<lambda>i. 1760000100000, reads = 0\<rparr>)
       = Throw (Error ''Message expired'')
   \<and> fst (decrypt (new_CryptoEngine (js ''device''))
            (sealed (new_CryptoEngine (js ''device'')) (js ''hello'') 1759827300000 5866667)
            \<lparr>readings = \<lambda>i. 1760000100000, reads = 0\<rparr>)
       = Throw (Error ''Decryption failed: Decryption failed - invalid key or expired data'')"
proof -
  let ?E = "new_CryptoEngine (js ''device'')"
  let ?c = "\<lparr>readings = \<lambda>i. 1760000100000, reads = 0\<rparr>"
  have tw: "timeWindow ?E = 300000" by (simp add: new_CryptoEngine_def)
  have win: "in_window 5866667 ?c" by (simp add: in_window_def)
  have m: "js ''hello'' \<noteq> []" by (simp add: js_def)
  have q: "latin1 (quoteUnits (js ''hello''))" by (rule latin1_quoteUnits) (simp add: js_def)
  have g: "\<forall>j\<in>{0, 1, 2, 3}. j \<noteq> 0 \<longrightarrow>
      garbled ?E (cipherOf ?E (js ''hello'') 1759827300000 (5866667 - int 0) (5866667 - int 0))
        (5866667 - int j)"
    by (simp add: garbled_device)
  have e: "encrypt ?E (js ''hello'') (Some 5866667) \<lparr>readings = \<lambda>i. 1759827300000, reads = 0\<rparr>
     = (Return (sealed ?E (js ''hello'') 1759827300000 5866667),
        \<lparr>readings = \<lambda>i. 1759827300000, reads = 1\<rparr>)"
    using encrypt_sealed_custom [of 5866667 "js ''hello''" ?E "\<lparr>readings = \<lambda>i. 1759827300000, reads = 0\<rparr>"] q
    by simp
  from expired_message_error_swallowed [OF tw win _ _ m q _ _ _ g] e
  show ?thesis by (simp add: attemptSeed_def)
qed

section \<open>What one attempt returns\<close>










section \<open>The order of the attempts\<close>






end
